theory Spec2Isabelle
  imports Main "HOL-Library.Multiset"
begin

section \<open>JavaScript values\<close>

text \<open>
  The values that cross the postMessage channel and that tool handlers return or
  reject with. Numbers are the integer-valued ones plus NaN; an object is the list of
  its own enumerable properties in enumeration order; \<open>JError m\<close> is an \<open>Error\<close>
  instance whose message is \<open>m\<close>.
\<close>

datatype jsval =
    JUndefined
  | JNull
  | JBool bool
  | JNum int
  | JNaN
  | JStr string
  | JError string
  | JArr "jsval list"
  | JObj "(string \<times> jsval) list"

text \<open>\<open>typeof x\<close>.\<close>

fun typeof :: "jsval \<Rightarrow> string" where
  "typeof JUndefined = ''undefined''"
| "typeof JNull = ''object''"
| "typeof (JBool b) = ''boolean''"
| "typeof (JNum n) = ''number''"
| "typeof JNaN = ''number''"
| "typeof (JStr s) = ''string''"
| "typeof (JError m) = ''object''"
| "typeof (JArr xs) = ''object''"
| "typeof (JObj kvs) = ''object''"

text \<open>ToBoolean: what \<open>if (x)\<close> and \<open>!x\<close> test.\<close>

fun truthy :: "jsval \<Rightarrow> bool" where
  "truthy JUndefined = False"
| "truthy JNull = False"
| "truthy (JBool b) = b"
| "truthy (JNum n) = (n \<noteq> 0)"
| "truthy JNaN = False"
| "truthy (JStr s) = (s \<noteq> [])"
| "truthy (JError m) = True"
| "truthy (JArr xs) = True"
| "truthy (JObj kvs) = True"

text \<open>\<open>x === null || x === undefined\<close>, the test of \<open>??\<close> and \<open>?.\<close>.\<close>

fun nullish :: "jsval \<Rightarrow> bool" where
  "nullish JUndefined = True"
| "nullish JNull = True"
| "nullish v = False"

text \<open>
  Property read \<open>x.k\<close> for the property names the program reads (\<open>type\<close>,
  \<open>payload\<close>, \<open>requestId\<close>, \<open>tool\<close>, \<open>args\<close>, \<open>code\<close>, \<open>message\<close>,
  \<open>conversationId\<close>). \<open>None\<close> is the TypeError of reading a property of
  \<open>null\<close> or \<open>undefined\<close>; primitives and arrays have none of these properties.
\<close>

fun getProp :: "jsval \<Rightarrow> string \<Rightarrow> jsval option" where
  "getProp JUndefined k = None"
| "getProp JNull k = None"
| "getProp (JObj kvs) k = (case map_of kvs k of None \<Rightarrow> Some JUndefined | Some v \<Rightarrow> Some v)"
| "getProp (JError m) k = (if k = ''message'' then Some (JStr m) else Some JUndefined)"
| "getProp v k = Some JUndefined"

text \<open>Optional chaining \<open>x?.k\<close>.\<close>

definition getPropOpt :: "jsval \<Rightarrow> string \<Rightarrow> jsval" where
  "getPropOpt x k = (case getProp x k of None \<Rightarrow> JUndefined | Some v \<Rightarrow> v)"

text \<open>\<open>a ?? b\<close>.\<close>

definition coalesce :: "jsval \<Rightarrow> jsval \<Rightarrow> jsval" where
  "coalesce a b = (if nullish a then b else a)"

subsection \<open>Number and value to string\<close>

definition digitChar :: "nat \<Rightarrow> char" where
  "digitChar d = ''0123456789'' ! (d mod 10)"

function natToString :: "nat \<Rightarrow> string" where
  "natToString n = (if n < 10 then [digitChar n] else natToString (n div 10) @ [digitChar (n mod 10)])"
  by pat_completeness auto
termination
  by (relation "measure id") auto

definition intToString :: "int \<Rightarrow> string" where
  "intToString i = (if i < 0 then CHR ''-'' # natToString (nat (- i)) else natToString (nat i))"

text \<open>
  \<open>String(x)\<close>, which a template literal applies to its holes. An array joins the
  strings of its elements with commas, \<open>null\<close> and \<open>undefined\<close> elements as empty.
\<close>

fun toStringJS :: "jsval \<Rightarrow> string"
  and joinJS :: "jsval list \<Rightarrow> string"
  and elemJS :: "jsval \<Rightarrow> string" where
  "toStringJS JUndefined = ''undefined''"
| "toStringJS JNull = ''null''"
| "toStringJS (JBool b) = (if b then ''true'' else ''false'')"
| "toStringJS (JNum n) = intToString n"
| "toStringJS JNaN = ''NaN''"
| "toStringJS (JStr s) = s"
| "toStringJS (JError m) = (if m = [] then ''Error'' else ''Error: '' @ m)"
| "toStringJS (JArr xs) = joinJS xs"
| "toStringJS (JObj kvs) = ''[object Object]''"
| "joinJS [] = []"
| "joinJS [x] = elemJS x"
| "joinJS (x # y # ys) = elemJS x @ '','' @ joinJS (y # ys)"
| "elemJS JUndefined = []"
| "elemJS JNull = []"
| "elemJS (JBool b) = toStringJS (JBool b)"
| "elemJS (JNum n) = toStringJS (JNum n)"
| "elemJS JNaN = toStringJS JNaN"
| "elemJS (JStr s) = toStringJS (JStr s)"
| "elemJS (JError m) = toStringJS (JError m)"
| "elemJS (JArr xs) = toStringJS (JArr xs)"
| "elemJS (JObj kvs) = toStringJS (JObj kvs)"

subsection \<open>JSON.stringify\<close>

text \<open>The texts of a list, separated by commas.\<close>

fun commaSep :: "string list \<Rightarrow> string" where
  "commaSep [] = []"
| "commaSep [t] = t"
| "commaSep (t # u # us) = t @ '','' @ commaSep (u # us)"

definition hexChar :: "nat \<Rightarrow> char" where
  "hexChar d = ''0123456789abcdef'' ! (d mod 16)"

text \<open>QuoteJSONString, one code unit at a time.\<close>

definition quoteChar :: "char \<Rightarrow> string" where
  "quoteChar c =
     (if c = CHR 0x08 then [CHR 0x5C, CHR ''b'']
      else if c = CHR 0x09 then [CHR 0x5C, CHR ''t'']
      else if c = CHR 0x0A then [CHR 0x5C, CHR ''n'']
      else if c = CHR 0x0C then [CHR 0x5C, CHR ''f'']
      else if c = CHR 0x0D then [CHR 0x5C, CHR ''r'']
      else if c = CHR 0x22 then [CHR 0x5C, CHR 0x22]
      else if c = CHR 0x5C then [CHR 0x5C, CHR 0x5C]
      else if (of_char c :: nat) < 32 then
        [CHR 0x5C, CHR ''u'', CHR ''0'', CHR ''0'', hexChar (of_char c div 16), hexChar (of_char c mod 16)]
      else [c])"

definition quoteJSON :: "string \<Rightarrow> string" where
  "quoteJSON s = CHR 0x22 # concat (map quoteChar s) @ [CHR 0x22]"

text \<open>
  SerializeJSONProperty. \<open>None\<close> is the result \<open>undefined\<close>: for \<open>undefined\<close>
  itself; inside an array it is written \<open>null\<close>, inside an object the property is
  left out. NaN is written \<open>null\<close>. An \<open>Error\<close> has no enumerable property of its
  own, so it is written \<open>{}\<close>.
\<close>

fun stringify :: "jsval \<Rightarrow> string option"
  and stringifyElems :: "jsval list \<Rightarrow> string list"
  and stringifyProps :: "(string \<times> jsval) list \<Rightarrow> string list" where
  "stringify JUndefined = None"
| "stringify JNull = Some ''null''"
| "stringify (JBool b) = Some (if b then ''true'' else ''false'')"
| "stringify (JNum n) = Some (intToString n)"
| "stringify JNaN = Some ''null''"
| "stringify (JStr s) = Some (quoteJSON s)"
| "stringify (JError m) = Some ''{}''"
| "stringify (JArr xs) = Some (''['' @ commaSep (stringifyElems xs) @ '']'')"
| "stringify (JObj kvs) = Some (''{'' @ commaSep (stringifyProps kvs) @ ''}'')"
| "stringifyElems [] = []"
| "stringifyElems (x # xs) =
     (case stringify x of None \<Rightarrow> ''null'' | Some t \<Rightarrow> t) # stringifyElems xs"
| "stringifyProps [] = []"
| "stringifyProps ((k, v) # kvs) =
     (case stringify v of None \<Rightarrow> stringifyProps kvs
      | Some t \<Rightarrow> (quoteJSON k @ '':'' @ t) # stringifyProps kvs)"

text \<open>
  \<open>JSON.stringify(x)\<close> in a hole of a template literal: the result
  \<open>undefined\<close> is written as the text \<open>undefined\<close>.
\<close>

definition stringifyText :: "jsval \<Rightarrow> string" where
  "stringifyText x = (case stringify x of None \<Rightarrow> ''undefined'' | Some t \<Rightarrow> t)"

section \<open>Promises and the microtask queue\<close>

text \<open>
  The part of the ECMAScript promise machinery the program uses: promise states,
  \<open>then\<close> (PerformPromiseThen), settling a promise (TriggerPromiseReactions), the
  resolve function applied to a promise (NewPromiseResolveThenableJob) and the FIFO
  queue of promise jobs. A promise is its index in \<open>pstates\<close>; every promise
  reference the program holds was returned by \<open>newPromise\<close>, so no read is out of
  range.
\<close>

type_synonym pid = nat

datatype outcome = Fulfilled jsval | Rejected jsval

datatype pstate = Pending | Settled outcome

text \<open>
  The unit handed to \<open>serializeExecution\<close> by \<open>handlePptxToolCall\<close>: the closure
  \<open>() => handler(args)\<close>, with \<open>handler\<close> the entry of \<open>handlerMap\<close> under
  the tool name.
\<close>

datatype fn = Invoke string jsval

text \<open>
  The closures the program passes to \<open>then\<close>, \<open>catch\<close> and \<open>finally\<close>, with
  the variables they capture, and the built-in ones: \<open>PassValue\<close> and \<open>PassThrow\<close>
  stand for a missing \<open>onFulfilled\<close> and \<open>onRejected\<close>; \<open>FinallyThen\<close> and
  \<open>FinallyCatch\<close> are the two functions \<open>finally\<close> builds around \<open>onFinally\<close>,
  \<open>ValueThunk\<close> and \<open>Thrower\<close> the ones these return through.
\<close>

datatype cont =
    CallFn fn
  | RetUndefined
  | DeleteReturn string
  | DeleteThrow string
  | RespondOk jsval
  | RespondErr jsval
  | FinallyThen jsval
  | FinallyCatch jsval
  | ValueThunk jsval
  | Thrower jsval
  | SetAuthIfToken
  | PassValue
  | PassThrow

text \<open>
  A reaction waits on a pending promise: \<open>Derive p f r t\<close> is registered by
  \<open>p.then(f, r)\<close>, whose result is the promise \<open>t\<close>; \<open>Adopt p t\<close> is registered
  when \<open>t\<close> was resolved with the promise \<open>p\<close> and holds the resolving functions
  of \<open>t\<close>.
\<close>

datatype reaction = Derive pid cont cont pid | Adopt pid pid

datatype job =
    ReactionJob cont jsval pid
  | SettleJob outcome pid
  | ThenableJob pid pid

datatype callback =
    OnToolCall jsval jsval jsval
  | OnError jsval jsval
  | OnConversationChange jsval
  | OnTokenRefreshRequired
  | ReadyCallback nat

record state =
  pstates :: "pstate list"
  reactions :: "reaction list"
  microtasks :: "job list"
  adoptions :: "(pid \<times> pid) list"
  derived :: "reaction list"
  ops :: "(fn \<times> pid) list"
  external :: "pid list"
  executionChain :: pid
  inFlightCalls :: "string \<rightharpoonup> pid"
  submitted :: "(fn \<times> pid \<times> pid) list"
  isReady :: bool
  readyCallbacks :: "nat list"
  cachedToken :: jsval
  handledRequestIds :: "jsval list"
  now :: nat
  timers :: "(nat \<times> jsval) list"
  outbox :: "(jsval \<times> string) list"
  callbackLog :: "callback list"

text \<open>
  Besides the program's variables (\<open>executionChain\<close>, \<open>inFlightCalls\<close>, the fields
  of the \<open>UsableChatEmbed\<close> instance) and the runtime's (\<open>pstates\<close>,
  \<open>reactions\<close>, \<open>microtasks\<close>, the clock \<open>now\<close> and the pending \<open>timers\<close>),
  the state records what the outside observes: \<open>ops\<close>, the handler invocations in
  call order with the promise each returned; \<open>external\<close>, the promises returned by
  the embed's option callbacks; \<open>outbox\<close>, the messages posted to the iframe;
  \<open>callbackLog\<close>, the option callbacks invoked. \<open>submitted\<close> lists the calls of
  \<open>serializeExecution\<close> (unit, returned promise, new cursor), \<open>adoptions\<close>
  the pairs (promise, promise it was resolved with) and \<open>derived\<close> the
  registrations made by \<open>then\<close>. The program never reads these observation
  fields.
\<close>

definition pst :: "state \<Rightarrow> pid \<Rightarrow> pstate" where
  "pst s p = pstates s ! p"

definition newPromise :: "pstate \<Rightarrow> state \<Rightarrow> pid \<times> state" where
  "newPromise st s = (length (pstates s), s\<lparr>pstates := pstates s @ [st]\<rparr>)"

definition enqueueJob :: "job \<Rightarrow> state \<Rightarrow> state" where
  "enqueueJob j s = s\<lparr>microtasks := microtasks s @ [j]\<rparr>"

fun src :: "reaction \<Rightarrow> pid" where
  "src (Derive p f r t) = p"
| "src (Adopt p t) = p"

fun reactionJob :: "outcome \<Rightarrow> reaction \<Rightarrow> job" where
  "reactionJob (Fulfilled v) (Derive p f r t) = ReactionJob f v t"
| "reactionJob (Rejected e) (Derive p f r t) = ReactionJob r e t"
| "reactionJob out (Adopt p t) = SettleJob out t"

text \<open>
  FulfillPromise and RejectPromise: a pending promise takes its outcome and one job
  per reaction registered on it is queued, in registration order. A settled promise
  stays as it is.
\<close>

definition settlePromise :: "pid \<Rightarrow> outcome \<Rightarrow> state \<Rightarrow> state" where
  "settlePromise p out s =
     (if pst s p = Pending then
        s\<lparr>pstates := (pstates s)[p := Settled out],
          microtasks := microtasks s @ map (reactionJob out) (filter (\<lambda>r. src r = p) (reactions s)),
          reactions := filter (\<lambda>r. src r \<noteq> p) (reactions s)\<rparr>
      else s)"

text \<open>PerformPromiseThen with the derived promise \<open>t\<close> already made.\<close>

definition addReaction :: "reaction \<Rightarrow> state \<Rightarrow> state" where
  "addReaction r s = s\<lparr>reactions := reactions s @ [r]\<rparr>"

definition performThen :: "pid \<Rightarrow> cont \<Rightarrow> cont \<Rightarrow> pid \<Rightarrow> state \<Rightarrow> state" where
  "performThen p f r t s =
     (case pst s p of
        Pending \<Rightarrow> addReaction (Derive p f r t) (s\<lparr>derived := derived s @ [Derive p f r t]\<rparr>)
      | Settled out \<Rightarrow>
          enqueueJob (reactionJob out (Derive p f r t)) (s\<lparr>derived := derived s @ [Derive p f r t]\<rparr>))"

text \<open>\<open>p.then(f, r)\<close>.\<close>

definition promiseThen :: "pid \<Rightarrow> cont \<Rightarrow> cont \<Rightarrow> state \<Rightarrow> pid \<times> state" where
  "promiseThen p f r s = (let (t, s1) = newPromise Pending s in (t, performThen p f r t s1))"

text \<open>
  The resolve function of \<open>t\<close> applied to the promise \<open>q\<close>: a
  NewPromiseResolveThenableJob is queued.
\<close>

definition resolveWith :: "pid \<Rightarrow> pid \<Rightarrow> state \<Rightarrow> state" where
  "resolveWith t q s = enqueueJob (ThenableJob t q) (s\<lparr>adoptions := adoptions s @ [(t, q)]\<rparr>)"

section \<open>The program\<close>

subsection \<open>The embed's options and its iframe\<close>

text \<open>
  \<open>onToolCall\<close> is either the closure that \<open>useChatEmbed\<close> passes,
  \<open>async (tool, args, _requestId) => { return handlePptxToolCall(tool, args); }\<close>,
  or any other handler, of which the model knows only that it returns a promise the
  outside settles. The other callbacks are present or absent. \<open>contentWindow\<close> is
  \<open>iframe.contentWindow\<close>, \<open>None\<close> for \<open>null\<close>.
\<close>

datatype toolCallHandler = PptxBridge | ExternalHandler

record config =
  optIframeOrigin :: "string option"
  contentWindow :: "nat option"
  onToolCall :: "toolCallHandler option"
  onError :: bool
  onConversationChange :: bool
  onTokenRefreshRequired :: bool

text \<open>\<open>this.iframeOrigin = options.iframeOrigin ?? "*"\<close>.\<close>

definition iframeOrigin :: "config \<Rightarrow> string" where
  "iframeOrigin cfg = (case optIframeOrigin cfg of None \<Rightarrow> ''*'' | Some x \<Rightarrow> x)"

definition postToIframe :: "config \<Rightarrow> jsval \<Rightarrow> state \<Rightarrow> state" where
  "postToIframe cfg message s =
     (let target = (if iframeOrigin cfg = ''*'' then ''*'' else iframeOrigin cfg) in
      case contentWindow cfg of
        None \<Rightarrow> s
      | Some w \<Rightarrow> s\<lparr>outbox := outbox s @ [(message, target)]\<rparr>)"

definition toolResponse :: "jsval \<Rightarrow> jsval \<Rightarrow> jsval" where
  "toolResponse requestId result =
     JObj [(''type'', JStr ''TOOL_RESPONSE''),
           (''payload'', JObj [(''requestId'', requestId), (''result'', result)])]"

definition respondToToolCall :: "config \<Rightarrow> jsval \<Rightarrow> jsval \<Rightarrow> state \<Rightarrow> state" where
  "respondToToolCall cfg requestId result s = postToIframe cfg (toolResponse requestId result) s"

definition setAuth :: "config \<Rightarrow> jsval \<Rightarrow> state \<Rightarrow> state" where
  "setAuth cfg token s =
     postToIframe cfg (JObj [(''type'', JStr ''AUTH''), (''payload'', JObj [(''token'', token)])])
       (s\<lparr>cachedToken := token\<rparr>)"

definition registerTools :: "config \<Rightarrow> jsval \<Rightarrow> state \<Rightarrow> state" where
  "registerTools cfg tools s =
     postToIframe cfg (JObj [(''type'', JStr ''REGISTER_TOOLS''), (''payload'', JObj [(''tools'', tools)])]) s"

definition setConfig :: "config \<Rightarrow> jsval \<Rightarrow> state \<Rightarrow> state" where
  "setConfig cfg c s = postToIframe cfg (JObj [(''type'', JStr ''CONFIG''), (''payload'', c)]) s"

definition toggle :: "config \<Rightarrow> bool \<Rightarrow> state \<Rightarrow> state" where
  "toggle cfg visible s =
     postToIframe cfg
       (JObj [(''type'', JStr ''TOGGLE_VISIBILITY''), (''payload'', JObj [(''visible'', JBool visible)])]) s"

definition newConversation :: "config \<Rightarrow> state \<Rightarrow> state" where
  "newConversation cfg s = postToIframe cfg (JObj [(''type'', JStr ''NEW_CONVERSATION'')]) s"

definition onReady :: "nat \<Rightarrow> state \<Rightarrow> state" where
  "onReady cb s =
     (if isReady s then s\<lparr>callbackLog := callbackLog s @ [ReadyCallback cb]\<rparr>
      else s\<lparr>readyCallbacks := readyCallbacks s @ [cb]\<rparr>)"

subsection \<open>pptx-tools: the handler table, the execution chain, the in-flight calls\<close>

text \<open>The keys of \<open>handlerMap\<close>: the names of the \<open>tools\<close> table, in its order.\<close>

definition handlerNames :: "string list" where
  "handlerNames =
     [''get_presentation_info'', ''list_slides'', ''get_slide'', ''get_selected_slide'',
      ''add_slide'', ''delete_slide'', ''move_slide'', ''duplicate_slide'', ''set_slide_title'',
      ''add_text_box'', ''set_shape_text'', ''get_shapes'', ''delete_shape'', ''add_table'',
      ''set_table_data'', ''apply_background_color'', ''set_shape_position'', ''set_layout'']"

text \<open>
  \<open>handlerMap.get(toolName)\<close>: the keys are strings, so only a string finds a
  handler. The result is the key found.
\<close>

fun handlerMapGet :: "jsval \<Rightarrow> string option" where
  "handlerMapGet (JStr t) = (if t \<in> set handlerNames then Some t else None)"
| "handlerMapGet v = None"

text \<open>
  \<open>fn()\<close>, that is \<open>handler(args)\<close>. Every handler of the table is an
  \<open>async\<close> function around \<open>PowerPoint.run\<close>: the call returns a new promise and
  never throws; the engine settles the promise later (event \<open>Settle\<close>). The call is
  appended to \<open>ops\<close>.
\<close>

definition callFn :: "fn \<Rightarrow> state \<Rightarrow> pid \<times> state" where
  "callFn f s = (let (h, s1) = newPromise Pending s in (h, s1\<lparr>ops := ops s1 @ [(f, h)]\<rparr>))"

definition serializeExecution :: "fn \<Rightarrow> state \<Rightarrow> pid \<times> state" where
  "serializeExecution f s =
     (let (result, s1) = promiseThen (executionChain s) (CallFn f) PassThrow s;
          (chain, s2) = promiseThen result RetUndefined RetUndefined s1
      in (result, s2\<lparr>executionChain := chain, submitted := submitted s2 @ [(f, result, chain)]\<rparr>))"

text \<open>
  \<open>handlePptxToolCall\<close> is an \<open>async\<close> function: it returns a promise of its own
  (\<open>ret\<close>), rejected by a \<open>throw\<close> and resolved with the promise a \<open>return\<close>
  gives.
\<close>

definition unknownToolError :: "jsval \<Rightarrow> jsval" where
  "unknownToolError toolName =
     JError (''Unknown PowerPoint tool: '' @ [CHR 0x22] @ toStringJS toolName @ [CHR 0x22])"

definition callKey :: "jsval \<Rightarrow> jsval \<Rightarrow> string" where
  "callKey toolName args = toStringJS toolName @ '':'' @ stringifyText args"

definition handlePptxToolCall :: "jsval \<Rightarrow> jsval \<Rightarrow> state \<Rightarrow> pid \<times> state" where
  "handlePptxToolCall toolName args s =
     (let (ret, s0) = newPromise Pending s in
      case handlerMapGet toolName of
        None \<Rightarrow> (ret, settlePromise ret (Rejected (unknownToolError toolName)) s0)
      | Some t \<Rightarrow>
          (let key = callKey toolName args in
           case inFlightCalls s0 key of
             Some existing \<Rightarrow> (ret, resolveWith ret existing s0)
           | None \<Rightarrow>
               (let (result, s1) = serializeExecution (Invoke t args) s0;
                    (promise, s2) = promiseThen result (DeleteReturn key) (DeleteThrow key) s1;
                    s3 = s2\<lparr>inFlightCalls := (inFlightCalls s2)(key \<mapsto> promise)\<rparr>
                in (ret, resolveWith ret promise s3))))"

subsection \<open>Running a promise job\<close>

datatype completion = Return jsval | ReturnPromise pid | Throw jsval

text \<open>
  \<open>setTimeout(() => this.handledRequestIds.delete(requestId), 30000)\<close>: a timer due
  30000 ms from now.
\<close>

definition scheduleCleanup :: "jsval \<Rightarrow> state \<Rightarrow> state" where
  "scheduleCleanup requestId s = s\<lparr>timers := timers s @ [(now s + 30000, requestId)]\<rparr>"

fun runCont :: "config \<Rightarrow> cont \<Rightarrow> jsval \<Rightarrow> state \<Rightarrow> completion \<times> state" where
  "runCont cfg (CallFn f) v s = (let (h, s1) = callFn f s in (ReturnPromise h, s1))"
| "runCont cfg RetUndefined v s = (Return JUndefined, s)"
| "runCont cfg (DeleteReturn key) v s = (Return v, s\<lparr>inFlightCalls := (inFlightCalls s)(key := None)\<rparr>)"
| "runCont cfg (DeleteThrow key) v s = (Throw v, s\<lparr>inFlightCalls := (inFlightCalls s)(key := None)\<rparr>)"
| "runCont cfg (RespondOk requestId) v s =
     (Return JUndefined,
      respondToToolCall cfg requestId (JObj [(''success'', JBool True), (''result'', v)]) s)"
| "runCont cfg (RespondErr requestId) v s =
     (case getProp v ''message'' of
        None \<Rightarrow> (Throw (JError ''TypeError''), s)
      | Some m \<Rightarrow>
          (Return JUndefined,
           respondToToolCall cfg requestId
             (JObj [(''success'', JBool False), (''error'', coalesce m (JStr (toStringJS v)))]) s))"
| "runCont cfg (FinallyThen requestId) v s =
     (let s1 = scheduleCleanup requestId s;
          (a, s2) = newPromise (Settled (Fulfilled JUndefined)) s1;
          (b, s3) = promiseThen a (ValueThunk v) PassThrow s2
      in (ReturnPromise b, s3))"
| "runCont cfg (FinallyCatch requestId) v s =
     (let s1 = scheduleCleanup requestId s;
          (a, s2) = newPromise (Settled (Fulfilled JUndefined)) s1;
          (b, s3) = promiseThen a (Thrower v) PassThrow s2
      in (ReturnPromise b, s3))"
| "runCont cfg (ValueThunk x) v s = (Return x, s)"
| "runCont cfg (Thrower x) v s = (Throw x, s)"
| "runCont cfg SetAuthIfToken v s = (Return JUndefined, if truthy v then setAuth cfg v s else s)"
| "runCont cfg PassValue v s = (Return v, s)"
| "runCont cfg PassThrow v s = (Throw v, s)"

text \<open>
  A promise job, already taken from the queue. PromiseReactionJob runs the handler and
  resolves the derived promise with its completion; the resolving functions of
  \<open>t\<close> settle it; NewPromiseResolveThenableJob calls \<open>then\<close> of the thenable with
  the resolving functions of \<open>t\<close>.
\<close>

fun runJob :: "config \<Rightarrow> job \<Rightarrow> state \<Rightarrow> state" where
  "runJob cfg (ReactionJob c v t) s =
     (let (res, s1) = runCont cfg c v s in
      case res of
        Return x \<Rightarrow> settlePromise t (Fulfilled x) s1
      | ReturnPromise q \<Rightarrow> resolveWith t q s1
      | Throw e \<Rightarrow> settlePromise t (Rejected e) s1)"
| "runJob cfg (SettleJob out t) s = settlePromise t out s"
| "runJob cfg (ThenableJob t q) s =
     (case pst s q of
        Pending \<Rightarrow> addReaction (Adopt q t) s
      | Settled out \<Rightarrow> enqueueJob (reactionJob out (Adopt q t)) s)"

subsection \<open>UsableChatEmbed.handleMessage\<close>

record messageEvent =
  evOrigin :: string
  evSource :: "nat option"
  evData :: jsval

text \<open>
  \<open>Set.prototype.has\<close> compares by SameValueZero: primitives by value, objects by
  identity. The data of every message is a fresh structured clone, so an object in it
  is never identical to one stored earlier.
\<close>

fun isPrimitive :: "jsval \<Rightarrow> bool" where
  "isPrimitive (JError m) = False"
| "isPrimitive (JArr xs) = False"
| "isPrimitive (JObj kvs) = False"
| "isPrimitive v = True"

definition setHas :: "jsval list \<Rightarrow> jsval \<Rightarrow> bool" where
  "setHas xs x = (isPrimitive x \<and> x \<in> set xs)"

text \<open>
  \<open>this.options.onToolCall(tool, args, requestId)\<close>. The bridge is an \<open>async\<close>
  function whose \<open>return\<close> resolves its promise with the one of
  \<open>handlePptxToolCall\<close>.
\<close>

fun callOnToolCall :: "toolCallHandler \<Rightarrow> jsval \<Rightarrow> jsval \<Rightarrow> jsval \<Rightarrow> state \<Rightarrow> pid \<times> state" where
  "callOnToolCall PptxBridge tool args requestId s =
     (let (ret, s0) = newPromise Pending s;
          (p, s1) = handlePptxToolCall tool args s0
      in (ret, resolveWith ret p s1))"
| "callOnToolCall ExternalHandler tool args requestId s =
     (let (p, s1) = newPromise Pending s in (p, s1\<lparr>external := external s1 @ [p]\<rparr>))"

text \<open>
  The \<open>TOOL_CALL\<close> case. Destructuring a payload that is \<open>null\<close> or
  \<open>undefined\<close> throws before anything is changed.
\<close>

definition handleToolCall :: "config \<Rightarrow> jsval \<Rightarrow> state \<Rightarrow> state" where
  "handleToolCall cfg payload s =
     (case (getProp payload ''requestId'', getProp payload ''tool'', getProp payload ''args'') of
        (Some requestId, Some tool, Some args) \<Rightarrow>
          if setHas (handledRequestIds s) requestId then s
          else
            (let s1 = s\<lparr>handledRequestIds := handledRequestIds s @ [requestId]\<rparr> in
             case onToolCall cfg of
               None \<Rightarrow> s1
             | Some h \<Rightarrow>
                 (let (p0, s2) = callOnToolCall h tool args requestId
                                   (s1\<lparr>callbackLog := callbackLog s1 @ [OnToolCall tool args requestId]\<rparr>);
                      (p1, s3) = promiseThen p0 (RespondOk requestId) PassThrow s2;
                      (p2, s4) = promiseThen p1 PassValue (RespondErr requestId) s3;
                      (p3, s5) = promiseThen p2 (FinallyThen requestId) (FinallyCatch requestId) s4
                  in s5))
      | _ \<Rightarrow> s)"

definition handleMessage :: "config \<Rightarrow> messageEvent \<Rightarrow> state \<Rightarrow> state" where
  "handleMessage cfg event s =
     (if iframeOrigin cfg \<noteq> ''*'' \<and> evOrigin event \<noteq> iframeOrigin cfg then s
      else if evSource event \<noteq> contentWindow cfg then s
      else
        (let d = evData event in
         if \<not> truthy d \<or> typeof d \<noteq> ''object'' \<or> \<not> truthy (getPropOpt d ''type'') then s
         else
           (let ty = getPropOpt d ''type''; payload = getPropOpt d ''payload'' in
            if ty = JStr ''READY'' then
              s\<lparr>isReady := True,
                callbackLog := callbackLog s @ map ReadyCallback (readyCallbacks s),
                readyCallbacks := []\<rparr>
            else if ty = JStr ''TOOL_CALL'' then handleToolCall cfg payload s
            else if ty = JStr ''REQUEST_TOKEN_REFRESH'' then
              (if onTokenRefreshRequired cfg then
                 (let (p, s1) = newPromise Pending s;
                      s2 = s1\<lparr>external := external s1 @ [p],
                               callbackLog := callbackLog s1 @ [OnTokenRefreshRequired]\<rparr>;
                      (q, s3) = promiseThen p SetAuthIfToken PassThrow s2
                  in s3)
               else if truthy (cachedToken s) then setAuth cfg (cachedToken s) s
               else s)
            else if ty = JStr ''ERROR'' then
              (if onError cfg then
                 s\<lparr>callbackLog := callbackLog s @
                     [OnError (coalesce (getPropOpt payload ''code'') (JStr ''UNKNOWN''))
                              (coalesce (getPropOpt payload ''message'') (JStr []))]\<rparr>
               else s)
            else if ty = JStr ''CONVERSATION_CHANGED'' then
              (if onConversationChange cfg then
                 s\<lparr>callbackLog := callbackLog s @
                     [OnConversationChange (coalesce (getPropOpt payload ''conversationId'') JNull)]\<rparr>
               else s)
            else s)))"

subsection \<open>The event loop\<close>

text \<open>
  What can happen next: the oldest promise job runs (\<open>Micro\<close>); the outside settles
  a promise it owns, one returned by a tool handler or by an option callback
  (\<open>Settle\<close>); \<open>handlePptxToolCall\<close> is called (\<open>Call\<close>); a message event
  reaches the listener (\<open>Message\<close>); time passes (\<open>Tick\<close>); a timer that is due
  fires (\<open>TimerFire\<close>, by its position among the pending timers); the application
  calls a method of the embed. The model lets calls and messages arrive at any point
  between two promise jobs, which includes every interleaving of the browser, where they
  arrive only when the job queue is empty. An event that cannot happen in the state
  leaves it as it is.
\<close>

datatype event =
    Micro
  | Settle pid outcome
  | Call jsval jsval
  | Message messageEvent
  | Tick nat
  | TimerFire nat
  | ApiOnReady nat
  | ApiSetAuth jsval
  | ApiRegisterTools jsval
  | ApiSetConfig jsval
  | ApiToggle bool
  | ApiNewConversation

definition envOwned :: "state \<Rightarrow> pid list" where
  "envOwned s = map snd (ops s) @ external s"

definition fireTimer :: "nat \<Rightarrow> state \<Rightarrow> state" where
  "fireTimer i s =
     (if i < length (timers s) \<and> fst (timers s ! i) \<le> now s then
        s\<lparr>timers := take i (timers s) @ drop (Suc i) (timers s),
          handledRequestIds := remove1 (snd (timers s ! i)) (handledRequestIds s)\<rparr>
      else s)"

fun step :: "config \<Rightarrow> event \<Rightarrow> state \<Rightarrow> state" where
  "step cfg Micro s =
     (case microtasks s of [] \<Rightarrow> s | j # js \<Rightarrow> runJob cfg j (s\<lparr>microtasks := js\<rparr>))"
| "step cfg (Settle p out) s =
     (if p \<in> set (envOwned s) \<and> pst s p = Pending then settlePromise p out s else s)"
| "step cfg (Call toolName args) s = snd (handlePptxToolCall toolName args s)"
| "step cfg (Message event) s = handleMessage cfg event s"
| "step cfg (Tick d) s = s\<lparr>now := now s + d\<rparr>"
| "step cfg (TimerFire i) s = fireTimer i s"
| "step cfg (ApiOnReady cb) s = onReady cb s"
| "step cfg (ApiSetAuth token) s = setAuth cfg token s"
| "step cfg (ApiRegisterTools tools) s = registerTools cfg tools s"
| "step cfg (ApiSetConfig c) s = setConfig cfg c s"
| "step cfg (ApiToggle visible) s = toggle cfg visible s"
| "step cfg ApiNewConversation s = newConversation cfg s"

fun exec :: "config \<Rightarrow> event list \<Rightarrow> state \<Rightarrow> state" where
  "exec cfg [] s = s"
| "exec cfg (e # es) s = exec cfg es (step cfg e s)"

text \<open>
  The state after the modules are loaded and the embed is constructed:
  \<open>executionChain = Promise.resolve()\<close> is promise 0, the registries are empty.
\<close>

definition init :: state where
  "init =
     \<lparr>pstates = [Settled (Fulfilled JUndefined)], reactions = [], microtasks = [], adoptions = [],
      derived = [], ops = [], external = [], executionChain = 0, inFlightCalls = Map.empty, submitted = [],
      isReady = False, readyCallbacks = [], cachedToken = JNull, handledRequestIds = [],
      now = 0, timers = [], outbox = [], callbackLog = []\<rparr>"

definition run :: "config \<Rightarrow> event list \<Rightarrow> state" where
  "run cfg es = exec cfg es init"

section \<open>Invariants of the reachable states\<close>

subsection \<open>Who may settle a promise\<close>

fun rown :: "reaction \<Rightarrow> pid" where
  "rown (Derive p f r t) = t"
| "rown (Adopt p t) = t"

fun jown :: "job \<Rightarrow> pid" where
  "jown (ReactionJob c v t) = t"
| "jown (SettleJob out t) = t"
| "jown (ThenableJob t q) = t"

fun jrefs :: "job \<Rightarrow> pid list" where
  "jrefs (ThenableJob t q) = [q]"
| "jrefs j = []"

definition tokOwners :: "state \<Rightarrow> pid list" where
  "tokOwners s = map rown (reactions s) @ map jown (microtasks s)"

definition caps :: "pid list \<Rightarrow> state \<Rightarrow> pid multiset" where
  "caps xs s = mset (tokOwners s) + mset (envOwned s) + mset xs"

definition wfx :: "pid list \<Rightarrow> state \<Rightarrow> bool" where
  "wfx xs s \<longleftrightarrow>
     (\<forall>p. count (caps xs s) p \<le> 1)
   \<and> (\<forall>p \<in># caps xs s. p < length (pstates s))
   \<and> (\<forall>p \<in> set (tokOwners s) \<union> set xs. pst s p = Pending)
   \<and> (\<forall>r \<in> set (reactions s). src r < length (pstates s) \<and> pst s (src r) = Pending)
   \<and> (\<forall>j \<in> set (microtasks s). \<forall>q \<in> set (jrefs j). q < length (pstates s))
   \<and> executionChain s < length (pstates s)
   \<and> (\<forall>p \<in> ran (inFlightCalls s). p < length (pstates s))"

definition wf :: "state \<Rightarrow> bool" where
  "wf s = wfx [] s"

subsection \<open>What \<open>then\<close> and adoption mean\<close>

fun contResult :: "cont \<Rightarrow> jsval \<Rightarrow> outcome option" where
  "contResult (CallFn f) v = None"
| "contResult RetUndefined v = Some (Fulfilled JUndefined)"
| "contResult (DeleteReturn k) v = Some (Fulfilled v)"
| "contResult (DeleteThrow k) v = Some (Rejected v)"
| "contResult (RespondOk rid) v = Some (Fulfilled JUndefined)"
| "contResult (RespondErr rid) v =
     (case getProp v ''message'' of
        None \<Rightarrow> Some (Rejected (JError ''TypeError''))
      | Some m \<Rightarrow> Some (Fulfilled JUndefined))"
| "contResult (FinallyThen rid) v = None"
| "contResult (FinallyCatch rid) v = None"
| "contResult (ValueThunk x) v = Some (Fulfilled x)"
| "contResult (Thrower x) v = Some (Rejected x)"
| "contResult SetAuthIfToken v = Some (Fulfilled JUndefined)"
| "contResult PassValue v = Some (Fulfilled v)"
| "contResult PassThrow v = Some (Rejected v)"

fun jobResult :: "job \<Rightarrow> outcome option" where
  "jobResult (ReactionJob c v t) = contResult c v"
| "jobResult (SettleJob out t) = Some out"
| "jobResult (ThenableJob t q) = None"

definition jobDone :: "state \<Rightarrow> job \<Rightarrow> bool" where
  "jobDone s j =
     (case jobResult j of
        Some out \<Rightarrow> pst s (jown j) = Settled out
      | None \<Rightarrow> jown j \<in> fst ` set (adoptions s))"

definition dphase :: "state \<Rightarrow> reaction \<Rightarrow> bool" where
  "dphase s R \<longleftrightarrow>
     R \<in> set (reactions s)
   \<or> (\<exists>out. pst s (src R) = Settled out
         \<and> (reactionJob out R \<in> set (microtasks s) \<or> jobDone s (reactionJob out R)))"

fun thenableQueued :: "state \<Rightarrow> reaction \<Rightarrow> bool" where
  "thenableQueued s (Adopt q t) = (ThenableJob t q \<in> set (microtasks s))"
| "thenableQueued s (Derive p f r t) = False"

definition ephase :: "state \<Rightarrow> reaction \<Rightarrow> bool" where
  "ephase s R \<longleftrightarrow> thenableQueued s R \<or> dphase s R"

definition entities :: "state \<Rightarrow> reaction list" where
  "entities s = derived s @ map (\<lambda>(t, q). Adopt q t) (adoptions s)"

fun jobKnown :: "state \<Rightarrow> job \<Rightarrow> bool" where
  "jobKnown s (ThenableJob t q) = (Adopt q t \<in> set (entities s))"
| "jobKnown s j = (\<exists>R \<in> set (entities s). \<exists>out. pst s (src R) = Settled out \<and> reactionJob out R = j)"

definition ginv :: "pid list \<Rightarrow> state \<Rightarrow> bool" where
  "ginv xs s \<longleftrightarrow>
     distinct (map rown (derived s)) \<and> distinct (map fst (adoptions s))
   \<and> (\<forall>R \<in> set (entities s). src R < length (pstates s) \<and> rown R < length (pstates s))
   \<and> (\<forall>R \<in> set (entities s). rown R \<notin> set xs \<longrightarrow> ephase s R)
   \<and> (\<forall>r \<in> set (reactions s). r \<in> set (entities s))
   \<and> (\<forall>j \<in> set (microtasks s). jobKnown s j)"

definition ext :: "state \<Rightarrow> state \<Rightarrow> bool" where
  "ext s s' \<longleftrightarrow>
     length (pstates s) \<le> length (pstates s')
   \<and> (\<forall>p out. p < length (pstates s) \<longrightarrow> pst s p = Settled out \<longrightarrow> pst s' p = Settled out)
   \<and> (\<forall>r \<in> set (reactions s). r \<in> set (reactions s')
         \<or> (\<exists>out. src r < length (pstates s') \<and> pst s' (src r) = Settled out
               \<and> reactionJob out r \<in> set (microtasks s')))
   \<and> set (microtasks s) \<subseteq> set (microtasks s')
   \<and> set (adoptions s) \<subseteq> set (adoptions s')
   \<and> set (derived s) \<subseteq> set (derived s')"

definition targetReady :: "state \<Rightarrow> pid \<Rightarrow> outcome option \<Rightarrow> bool" where
  "targetReady s t res \<longleftrightarrow>
     (\<forall>R \<in> set (entities s). rown R = t \<longrightarrow>
        (\<exists>out. pst s (src R) = Settled out
           \<and> (jobResult (reactionJob out R) = res \<or> jobDone s (reactionJob out R))))"

definition newTargets :: "state \<Rightarrow> state \<Rightarrow> bool" where
  "newTargets s s' \<longleftrightarrow>
     length (pstates s) \<le> length (pstates s')
   \<and> (\<forall>R \<in> set (entities s'). R \<in> set (entities s) \<or> length (pstates s) \<le> rown R)"

definition Gx :: "pid list \<Rightarrow> state \<Rightarrow> bool" where
  "Gx xs s \<longleftrightarrow> wfx xs s \<and> ginv xs s"

definition G :: "state \<Rightarrow> bool" where
  "G s \<longleftrightarrow> Gx [] s"

subsection \<open>The execution chain\<close>

fun isCallFn :: "cont \<Rightarrow> bool" where
  "isCallFn (CallFn f) = True"
| "isCallFn c = False"

fun callsFn :: "reaction \<Rightarrow> bool" where
  "callsFn (Derive p f r t) = (isCallFn f \<or> isCallFn r)"
| "callsFn (Adopt p t) = False"

text \<open>The job that calls a unit.\<close>

fun isStart :: "job \<Rightarrow> bool" where
  "isStart (ReactionJob c v t) = isCallFn c"
| "isStart j = False"

text \<open>
  The cursor unit \<open>k\<close> was chained on: the initial \<open>Promise.resolve()\<close> for the
  first unit, the cursor left by unit \<open>k - 1\<close> otherwise.
\<close>

definition prevCursor :: "state \<Rightarrow> nat \<Rightarrow> pid" where
  "prevCursor s k = (if k = 0 then 0 else snd (snd (submitted s ! (k - 1))))"

text \<open>
  The two registrations \<open>serializeExecution\<close> makes for unit \<open>k\<close>:
  \<open>executionChain.then(() => fn())\<close> and \<open>result.then(() => undefined, () => undefined)\<close>.
\<close>

definition startD :: "state \<Rightarrow> nat \<Rightarrow> reaction" where
  "startD s k = (case submitted s ! k of (f, r, c) \<Rightarrow> Derive (prevCursor s k) (CallFn f) PassThrow r)"

definition cursorD :: "state \<Rightarrow> nat \<Rightarrow> reaction" where
  "cursorD s k = (case submitted s ! k of (f, r, c) \<Rightarrow> Derive r RetUndefined RetUndefined c)"

text \<open>A registration whose handler has not run yet: it waits, or its job is queued.\<close>

definition notRun :: "state \<Rightarrow> reaction \<Rightarrow> bool" where
  "notRun s D \<longleftrightarrow>
     D \<in> set (reactions s)
   \<or> (\<exists>out. pst s (src D) = Settled out \<and> reactionJob out D \<in> set (microtasks s))"

definition chainInv :: "state \<Rightarrow> bool" where
  "chainInv s \<longleftrightarrow>
     (\<forall>k < length (submitted s). startD s k \<in> set (derived s) \<and> cursorD s k \<in> set (derived s))
   \<and> executionChain s = prevCursor s (length (submitted s))
   \<and> (\<forall>k < length (submitted s). prevCursor s k < length (pstates s))
   \<and> executionChain s < length (pstates s)
   \<and> length (ops s) \<le> length (submitted s)
   \<and> (\<forall>k < length (ops s). fst (ops s ! k) = fst (submitted s ! k)
         \<and> (fst (snd (submitted s ! k)), snd (ops s ! k)) \<in> set (adoptions s))
   \<and> (\<forall>k < length (submitted s). length (ops s) \<le> k \<longrightarrow> notRun s (startD s k))
   \<and> (\<forall>D \<in> set (derived s). callsFn D \<longrightarrow> (\<exists>k < length (submitted s). D = startD s k))
   \<and> 0 < length (pstates s) \<and> pst s 0 = Settled (Fulfilled JUndefined)
   \<and> (\<forall>k < length (ops s). pst s (prevCursor s k) = Settled (Fulfilled JUndefined))"

text \<open>
  A change of state that leaves the chain alone: nothing is submitted, no unit is
  started, and no new registration calls a unit.
\<close>

definition cneutral :: "state \<Rightarrow> state \<Rightarrow> bool" where
  "cneutral s s' \<longleftrightarrow>
     ext s s' \<and> submitted s' = submitted s \<and> ops s' = ops s \<and> executionChain s' = executionChain s
   \<and> (\<forall>D \<in> set (derived s'). D \<in> set (derived s) \<or> \<not> callsFn D)"

subsection \<open>Vocabulary of the claims\<close>

text \<open>
  A message's data is an object with a \<open>type\<close> field: a plain object that has the
  property. Errors and arrays are objects without it.
\<close>

fun isObjectWithType :: "jsval \<Rightarrow> bool" where
  "isObjectWithType (JObj kvs) = (''type'' \<in> fst ` set kvs)"
| "isObjectWithType v = False"

text \<open>Concrete inputs for the examples.\<close>

definition cfgBridge :: config where
  "cfgBridge =
     \<lparr>optIframeOrigin = Some ''https://chat.usable.dev'', contentWindow = Some 1,
      onToolCall = Some PptxBridge, onError = True, onConversationChange = False,
      onTokenRefreshRequired = True\<rparr>"

definition cfgNoHandler :: config where
  "cfgNoHandler =
     \<lparr>optIframeOrigin = Some ''https://chat.usable.dev'', contentWindow = Some 1,
      onToolCall = None, onError = False, onConversationChange = False,
      onTokenRefreshRequired = False\<rparr>"

definition toolCallMsg :: "string \<Rightarrow> string \<Rightarrow> jsval \<Rightarrow> jsval" where
  "toolCallMsg requestId tool args =
     JObj [(''type'', JStr ''TOOL_CALL''),
           (''payload'', JObj [(''requestId'', JStr requestId), (''tool'', JStr tool), (''args'', args)])]"

definition fromIframe :: "jsval \<Rightarrow> messageEvent" where
  "fromIframe d = \<lparr>evOrigin = ''https://chat.usable.dev'', evSource = Some 1, evData = d\<rparr>"

section \<open>Every reachable state is well formed\<close>

lemma jown_reactionJob [simp]: "jown (reactionJob out r) = rown r"
  by (cases out; cases r) auto

lemma jrefs_reactionJob [simp]: "jrefs (reactionJob out r) = []"
  by (cases out; cases r) auto

lemma jown_comp_reactionJob [simp]: "jown \<circ> reactionJob out = rown"
  by (rule ext) simp

text \<open>newPromise\<close>

lemma newPromise_fst [simp]: "fst (newPromise st s) = length (pstates s)"
  by (simp add: newPromise_def)

lemma tokOwners_newPromise [simp]: "tokOwners (snd (newPromise st s)) = tokOwners s"
  by (simp add: newPromise_def tokOwners_def)

lemma envOwned_newPromise [simp]: "envOwned (snd (newPromise st s)) = envOwned s"
  by (simp add: newPromise_def envOwned_def)

lemma pstates_newPromise [simp]: "pstates (snd (newPromise st s)) = pstates s @ [st]"
  by (simp add: newPromise_def)

lemma pst_newPromise:
  "pst (snd (newPromise st s)) p = (if p < length (pstates s) then pst s p else if p = length (pstates s) then st else pst (snd (newPromise st s)) p)"
  by (simp add: newPromise_def pst_def nth_append)

lemma pst_newPromise_old [simp]: "p < length (pstates s) \<Longrightarrow> pst (snd (newPromise st s)) p = pst s p"
  by (simp add: newPromise_def pst_def nth_append)

lemma pst_newPromise_new [simp]: "pst (snd (newPromise st s)) (length (pstates s)) = st"
  by (simp add: newPromise_def pst_def nth_append)

lemma other_newPromise [simp]:
  "reactions (snd (newPromise st s)) = reactions s"
  "microtasks (snd (newPromise st s)) = microtasks s"
  "executionChain (snd (newPromise st s)) = executionChain s"
  "inFlightCalls (snd (newPromise st s)) = inFlightCalls s"
  by (simp_all add: newPromise_def)

lemma caps_bound_fresh: "\<forall>p \<in># M. p < (n::nat) \<Longrightarrow> count M n = 0"
  by (metis less_irrefl not_in_iff)

lemma wfx_newPromise_pending:
  assumes "wfx xs s"
  shows "wfx (xs @ [length (pstates s)]) (snd (newPromise Pending s))"
proof -
  have c0: "count (caps xs s) (length (pstates s)) = 0"
    using assms by (intro caps_bound_fresh) (simp add: wfx_def)
  have c: "caps (xs @ [length (pstates s)]) (snd (newPromise Pending s)) = add_mset (length (pstates s)) (caps xs s)"
    by (simp add: caps_def)
  have old: "\<And>p. p \<in># caps xs s \<Longrightarrow> p < length (pstates s)"
    using assms by (simp add: wfx_def)
  have tk: "\<And>p. p \<in> set (tokOwners s) \<Longrightarrow> p < length (pstates s)" "\<And>p. p \<in> set xs \<Longrightarrow> p < length (pstates s)"
    using old by (simp_all add: caps_def)
  show ?thesis
    unfolding wfx_def c
    using assms c0 tk
    by (auto simp: wfx_def less_SucI)
qed


lemma wfx_newPromise_settled:
  assumes "wfx xs s"
  shows "wfx xs (snd (newPromise (Settled out) s))"
proof -
  have c: "caps xs (snd (newPromise (Settled out) s)) = caps xs s"
    by (simp add: caps_def)
  have old: "\<And>p. p \<in># caps xs s \<Longrightarrow> p < length (pstates s)"
    using assms by (simp add: wfx_def)
  have tk: "\<And>p. p \<in> set (tokOwners s) \<Longrightarrow> p < length (pstates s)" "\<And>p. p \<in> set xs \<Longrightarrow> p < length (pstates s)"
    using old by (simp_all add: caps_def)
  show ?thesis
    unfolding wfx_def c
    using assms tk
    by (auto simp: wfx_def less_SucI)
qed

text \<open>enqueueJob\<close>

lemma enqueueJob_fields [simp]:
  "pstates (enqueueJob j s) = pstates s"
  "reactions (enqueueJob j s) = reactions s"
  "microtasks (enqueueJob j s) = microtasks s @ [j]"
  "executionChain (enqueueJob j s) = executionChain s"
  "inFlightCalls (enqueueJob j s) = inFlightCalls s"
  "envOwned (enqueueJob j s) = envOwned s"
  "pst (enqueueJob j s) p = pst s p"
  by (simp_all add: enqueueJob_def envOwned_def pst_def)

lemma tokOwners_enqueueJob: "mset (tokOwners (enqueueJob j s)) = add_mset (jown j) (mset (tokOwners s))"
  by (simp add: tokOwners_def)

lemma caps_transfer: "t \<in> set xs \<Longrightarrow> add_mset t (M + mset (remove1 t xs)) = M + mset xs"
  by simp

lemma wfx_enqueueJob:
  assumes "wfx xs s" "jown j \<in> set xs" "\<forall>q \<in> set (jrefs j). q < length (pstates s)"
  shows "wfx (remove1 (jown j) xs) (enqueueJob j s)"
proof -
  have c: "caps (remove1 (jown j) xs) (enqueueJob j s) = caps xs s"
    using assms(2) by (simp add: caps_def tokOwners_enqueueJob)
  have s1: "set (tokOwners (enqueueJob j s)) = insert (jown j) (set (tokOwners s))"
    by (simp add: tokOwners_def)
  show ?thesis
    unfolding wfx_def c s1
    using assms by (auto simp: wfx_def dest: notin_set_remove1)
qed

text \<open>settlePromise\<close>

lemma settlePromise_fields [simp]:
  "length (pstates (settlePromise p out s)) = length (pstates s)"
  "executionChain (settlePromise p out s) = executionChain s"
  "inFlightCalls (settlePromise p out s) = inFlightCalls s"
  "envOwned (settlePromise p out s) = envOwned s"
  by (simp_all add: settlePromise_def envOwned_def)

lemma pst_settlePromise:
  "p < length (pstates s) \<Longrightarrow> pst s p = Pending \<Longrightarrow>
   pst (settlePromise p out s) q = (if q = p then Settled out else pst s q)"
  by (simp add: settlePromise_def pst_def nth_list_update)

lemma mset_map_filter_split:
  "image_mset f (filter_mset P M) + image_mset f (filter_mset (\<lambda>x. \<not> P x) M) = image_mset f M"
  by (metis image_mset_union multiset_partition)

lemma tokOwners_settlePromise: "mset (tokOwners (settlePromise p out s)) = mset (tokOwners s)"
proof (cases "pst s p = Pending")
  case True
  have "image_mset rown (filter_mset (\<lambda>r. src r \<noteq> p) (mset (reactions s)))
        + image_mset rown (filter_mset (\<lambda>r. src r = p) (mset (reactions s)))
        = image_mset rown (mset (reactions s))"
    using mset_map_filter_split [of rown "\<lambda>r. src r \<noteq> p" "mset (reactions s)"] by simp
  then show ?thesis
    using True by (simp add: tokOwners_def settlePromise_def ac_simps)
next
  case False
  then show ?thesis by (simp add: settlePromise_def)
qed

lemma reactions_settlePromise:
  "pst s p = Pending \<Longrightarrow> reactions (settlePromise p out s) = filter (\<lambda>r. src r \<noteq> p) (reactions s)"
  by (simp add: settlePromise_def)

lemma microtasks_settlePromise:
  "pst s p = Pending \<Longrightarrow>
   microtasks (settlePromise p out s) = microtasks s @ map (reactionJob out) (filter (\<lambda>r. src r = p) (reactions s))"
  by (simp add: settlePromise_def)

lemma settlePromise_not_pending: "pst s p \<noteq> Pending \<Longrightarrow> settlePromise p out s = s"
  by (simp add: settlePromise_def)

lemma wfxD:
  assumes "wfx xs s"
  shows "\<And>p. count (caps xs s) p \<le> 1"
    and "\<And>p. p \<in># caps xs s \<Longrightarrow> p < length (pstates s)"
    and "\<And>p. p \<in> set (tokOwners s) \<Longrightarrow> pst s p = Pending"
    and "\<And>p. p \<in> set xs \<Longrightarrow> pst s p = Pending"
    and "\<And>r. r \<in> set (reactions s) \<Longrightarrow> src r < length (pstates s) \<and> pst s (src r) = Pending"
    and "\<And>j q. j \<in> set (microtasks s) \<Longrightarrow> q \<in> set (jrefs j) \<Longrightarrow> q < length (pstates s)"
    and "executionChain s < length (pstates s)"
    and "\<And>p. p \<in> ran (inFlightCalls s) \<Longrightarrow> p < length (pstates s)"
  using assms unfolding wfx_def by simp_all

lemma wfx_settle_held:
  assumes "wfx xs s" "t \<in> set xs"
  shows "wfx (remove1 t xs) (settlePromise t out s)"
proof -
  note W = wfxD [OF assms(1)]
  have tin: "t \<in># caps xs s" using assms(2) by (simp add: caps_def)
  have tp: "t < length (pstates s)" "pst s t = Pending"
    using W(2) [OF tin] W(4) [OF assms(2)] by simp_all
  have c: "caps xs s = add_mset t (caps (remove1 t xs) (settlePromise t out s))"
    using assms(2) by (simp add: caps_def tokOwners_settlePromise)
  have cnt: "count (caps (remove1 t xs) (settlePromise t out s)) p \<le> 1" for p
    using W(1) [of p] unfolding c by (simp split: if_splits)
  have ct: "count (caps (remove1 t xs) (settlePromise t out s)) t = 0"
    using W(1) [of t] unfolding c by simp
  have sub: "p \<in># caps xs s" if "p \<in># caps (remove1 t xs) (settlePromise t out s)" for p
    using that unfolding c by simp
  have st: "set (tokOwners (settlePromise t out s)) = set (tokOwners s)"
    using tokOwners_settlePromise [of t out s] by (metis set_mset_mset)
  have nin: "t \<notin># caps (remove1 t xs) (settlePromise t out s)"
    using ct by (simp only: not_in_iff)
  have nt1: "t \<notin> set (tokOwners (settlePromise t out s))"
    using nin unfolding caps_def by (simp only: union_iff set_mset_mset) blast
  have nt2: "t \<notin> set (remove1 t xs)"
    using nin unfolding caps_def by (simp only: union_iff set_mset_mset) blast
  show ?thesis
    unfolding wfx_def
  proof (intro conjI)
    show "\<forall>p. count (caps (remove1 t xs) (settlePromise t out s)) p \<le> 1"
      using cnt by simp
    show "\<forall>p\<in>#caps (remove1 t xs) (settlePromise t out s). p < length (pstates (settlePromise t out s))"
      using sub W(2) by simp
    show "\<forall>p\<in>set (tokOwners (settlePromise t out s)) \<union> set (remove1 t xs). pst (settlePromise t out s) p = Pending"
    proof
      fix p assume a: "p \<in> set (tokOwners (settlePromise t out s)) \<union> set (remove1 t xs)"
      then have "p \<noteq> t" using nt1 nt2 by auto
      moreover have "pst s p = Pending"
        using a st W(3) W(4) set_remove1_subset [of t xs] by auto
      ultimately show "pst (settlePromise t out s) p = Pending"
        by (simp add: pst_settlePromise tp)
    qed
    show "\<forall>r\<in>set (reactions (settlePromise t out s)).
            src r < length (pstates (settlePromise t out s)) \<and> pst (settlePromise t out s) (src r) = Pending"
      using W(5) by (simp add: reactions_settlePromise tp pst_settlePromise)
    show "\<forall>j\<in>set (microtasks (settlePromise t out s)). \<forall>q\<in>set (jrefs j). q < length (pstates (settlePromise t out s))"
      using W(6) by (auto simp: microtasks_settlePromise tp)
    show "executionChain (settlePromise t out s) < length (pstates (settlePromise t out s))"
      using W(7) by simp
    show "\<forall>p\<in>ran (inFlightCalls (settlePromise t out s)). p < length (pstates (settlePromise t out s))"
      using W(8) by simp
  qed
qed


lemma wfx_settle_env:
  assumes "wfx xs s" "p \<in> set (envOwned s)"
  shows "wfx xs (settlePromise p out s)"
proof (cases "pst s p = Pending")
  case False
  then show ?thesis using assms(1) by (simp add: settlePromise_not_pending)
next
  case True
  note W = wfxD [OF assms(1)]
  have pin: "p \<in># caps xs s" using assms(2) by (simp add: caps_def)
  have tp: "p < length (pstates s)" "pst s p = Pending"
    using W(2) [OF pin] True by simp_all
  have c: "caps xs (settlePromise p out s) = caps xs s"
    by (simp add: caps_def tokOwners_settlePromise)
  have st: "set (tokOwners (settlePromise p out s)) = set (tokOwners s)"
    using tokOwners_settlePromise [of p out s] by (metis set_mset_mset)
  obtain M where M: "mset (envOwned s) = add_mset p M"
    using assms(2) by (metis in_multiset_in_set mset_add)
  have c1: "count (mset (tokOwners s)) p + count (mset xs) p = 0"
    using W(1) [of p] unfolding caps_def M by simp
  have nt: "p \<notin> set (tokOwners s)" "p \<notin> set xs"
    using c1 by (simp_all add: count_mset_0_iff)
  show ?thesis
    unfolding wfx_def c st
  proof (intro conjI)
    show "\<forall>p. count (caps xs s) p \<le> 1" using W(1) by simp
    show "\<forall>q\<in>#caps xs s. q < length (pstates (settlePromise p out s))" using W(2) by simp
    show "\<forall>q\<in>set (tokOwners s) \<union> set xs. pst (settlePromise p out s) q = Pending"
      using nt W(3) W(4) by (auto simp: pst_settlePromise tp)
    show "\<forall>r\<in>set (reactions (settlePromise p out s)).
            src r < length (pstates (settlePromise p out s)) \<and> pst (settlePromise p out s) (src r) = Pending"
      using W(5) by (simp add: reactions_settlePromise tp pst_settlePromise)
    show "\<forall>j\<in>set (microtasks (settlePromise p out s)). \<forall>q\<in>set (jrefs j). q < length (pstates (settlePromise p out s))"
      using W(6) by (auto simp: microtasks_settlePromise tp)
    show "executionChain (settlePromise p out s) < length (pstates (settlePromise p out s))"
      using W(7) by simp
    show "\<forall>q\<in>ran (inFlightCalls (settlePromise p out s)). q < length (pstates (settlePromise p out s))"
      using W(8) by simp
  qed
qed

text \<open>addReaction\<close>

lemma addReaction_fields [simp]:
  "pstates (addReaction r s) = pstates s"
  "reactions (addReaction r s) = reactions s @ [r]"
  "microtasks (addReaction r s) = microtasks s"
  "executionChain (addReaction r s) = executionChain s"
  "inFlightCalls (addReaction r s) = inFlightCalls s"
  "envOwned (addReaction r s) = envOwned s"
  "pst (addReaction r s) p = pst s p"
  by (simp_all add: addReaction_def envOwned_def pst_def)

lemma tokOwners_addReaction: "mset (tokOwners (addReaction r s)) = add_mset (rown r) (mset (tokOwners s))"
  by (simp add: tokOwners_def)

lemma wfx_addReaction:
  assumes "wfx xs s" "rown r \<in> set xs" "src r < length (pstates s)" "pst s (src r) = Pending"
  shows "wfx (remove1 (rown r) xs) (addReaction r s)"
proof -
  note W = wfxD [OF assms(1)]
  have c: "caps (remove1 (rown r) xs) (addReaction r s) = caps xs s"
    using assms(2) by (simp add: caps_def tokOwners_addReaction)
  have s1: "set (tokOwners (addReaction r s)) = insert (rown r) (set (tokOwners s))"
    by (simp add: tokOwners_def)
  show ?thesis
    unfolding wfx_def c s1
  proof (intro conjI)
    show "\<forall>p. count (caps xs s) p \<le> 1" using W(1) by simp
    show "\<forall>q\<in>#caps xs s. q < length (pstates (addReaction r s))" using W(2) by simp
    show "\<forall>q\<in>insert (rown r) (set (tokOwners s)) \<union> set (remove1 (rown r) xs). pst (addReaction r s) q = Pending"
      using W(3) W(4) assms(2) set_remove1_subset [of "rown r" xs] by auto
    show "\<forall>r'\<in>set (reactions (addReaction r s)).
            src r' < length (pstates (addReaction r s)) \<and> pst (addReaction r s) (src r') = Pending"
      using W(5) assms(3,4) by auto
    show "\<forall>j\<in>set (microtasks (addReaction r s)). \<forall>q\<in>set (jrefs j). q < length (pstates (addReaction r s))"
      using W(6) by simp
    show "executionChain (addReaction r s) < length (pstates (addReaction r s))"
      using W(7) by simp
    show "\<forall>q\<in>ran (inFlightCalls (addReaction r s)). q < length (pstates (addReaction r s))"
      using W(8) by simp
  qed
qed

lemma wfx_derived [simp]: "wfx xs (s\<lparr>derived := d\<rparr>) = wfx xs s"
  by (simp add: wfx_def caps_def tokOwners_def envOwned_def pst_def)

lemma wfx_performThen:
  assumes "wfx xs s" "t \<in> set xs" "p < length (pstates s)"
  shows "wfx (remove1 t xs) (performThen p f r t s)"
proof (cases "pst s p")
  case Pending
  let ?s1 = "s\<lparr>derived := derived s @ [Derive p f r t]\<rparr>"
  have "pst ?s1 p = Pending" using Pending by (simp add: pst_def)
  then show ?thesis
    using wfx_addReaction [of xs ?s1 "Derive p f r t"] assms Pending
    by (simp add: performThen_def)
next
  case (Settled out)
  let ?s1 = "s\<lparr>derived := derived s @ [Derive p f r t]\<rparr>"
  show ?thesis
    using wfx_enqueueJob [of xs ?s1 "reactionJob out (Derive p f r t)"] assms Settled
    by (simp add: performThen_def)
qed

lemma wfx_resolveWith:
  assumes "wfx xs s" "t \<in> set xs" "q < length (pstates s)"
  shows "wfx (remove1 t xs) (resolveWith t q s)"
proof -
  have e: "wfx xs (s\<lparr>adoptions := adoptions s @ [(t, q)]\<rparr>)"
    using assms(1) by (simp add: wfx_def caps_def tokOwners_def envOwned_def pst_def)
  show ?thesis
    unfolding resolveWith_def
    using wfx_enqueueJob [OF e, of "ThenableJob t q"] assms by simp
qed

lemma wfx_dequeue:
  assumes "wfx [] s" "microtasks s = j # js"
  shows "wfx [jown j] (s\<lparr>microtasks := js\<rparr>)"
proof -
  let ?s = "s\<lparr>microtasks := js\<rparr>"
  have c: "caps [jown j] ?s = caps [] s"
    using assms(2) by (simp add: caps_def tokOwners_def envOwned_def)
  note W = wfxD [OF assms(1)]
  have sub: "set (tokOwners ?s) \<union> set [jown j] = set (tokOwners s)"
    using assms(2) by (auto simp: tokOwners_def)
  have p: "pst ?s = pst s" by (rule ext) (simp add: pst_def)
  show ?thesis
    unfolding wfx_def c sub p
  proof (intro conjI)
    show "\<forall>p. count (caps [] s) p \<le> 1" using W(1) by simp
    show "\<forall>q\<in>#caps [] s. q < length (pstates ?s)" using W(2) by simp
    show "\<forall>q\<in>set (tokOwners s). pst s q = Pending" using W(3) by simp
    show "\<forall>r\<in>set (reactions ?s). src r < length (pstates ?s) \<and> pst s (src r) = Pending"
      using W(5) by simp
    show "\<forall>j'\<in>set (microtasks ?s). \<forall>q\<in>set (jrefs j'). q < length (pstates ?s)"
    proof (intro ballI)
      fix j' q assume "j' \<in> set (microtasks ?s)" "q \<in> set (jrefs j')"
      then have "j' \<in> set (microtasks s)" using assms(2) by simp
      then show "q < length (pstates ?s)" using W(6) \<open>q \<in> set (jrefs j')\<close> by simp
    qed
    show "executionChain ?s < length (pstates ?s)" using W(7) by simp
    show "\<forall>q\<in>ran (inFlightCalls ?s). q < length (pstates ?s)" using W(8) by simp
  qed
qed

lemma wfx_callFn:
  assumes "wfx xs s"
  shows "wfx xs (snd (callFn f s))"
proof -
  note W = wfxD [OF assms(1)]
  let ?n = "length (pstates s)"
  have c0: "count (caps xs s) ?n = 0"
    using W(2) by (intro caps_bound_fresh) simp
  have c: "caps xs (snd (callFn f s)) = add_mset ?n (caps xs s)"
    by (simp add: caps_def callFn_def newPromise_def tokOwners_def envOwned_def)
  have tk: "\<And>p. p \<in> set (tokOwners s) \<Longrightarrow> p < ?n" "\<And>p. p \<in> set xs \<Longrightarrow> p < ?n"
    using W(2) by (simp_all add: caps_def)
  have f: "pstates (snd (callFn f s)) = pstates s @ [Pending]"
    "reactions (snd (callFn f s)) = reactions s" "microtasks (snd (callFn f s)) = microtasks s"
    "executionChain (snd (callFn f s)) = executionChain s" "inFlightCalls (snd (callFn f s)) = inFlightCalls s"
    "tokOwners (snd (callFn f s)) = tokOwners s"
    by (simp_all add: callFn_def newPromise_def tokOwners_def)
  have po: "\<And>p. p < ?n \<Longrightarrow> pst (snd (callFn f s)) p = pst s p"
    by (simp add: pst_def f nth_append)
  show ?thesis
    unfolding wfx_def c f
  proof (intro conjI)
    show "\<forall>p. count (add_mset ?n (caps xs s)) p \<le> 1" using W(1) c0 by auto
    show "\<forall>q\<in>#add_mset ?n (caps xs s). q < length (pstates s @ [Pending])" using W(2) by (auto simp: less_SucI)
    show "\<forall>q\<in>set (tokOwners s) \<union> set xs. pst (snd (callFn f s)) q = Pending"
      using W(3) W(4) tk po by auto
    show "\<forall>r\<in>set (reactions s). src r < length (pstates s @ [Pending]) \<and> pst (snd (callFn f s)) (src r) = Pending"
      using W(5) po by (auto simp: less_SucI)
    show "\<forall>j\<in>set (microtasks s). \<forall>q\<in>set (jrefs j). q < length (pstates s @ [Pending])"
      using W(6) by (auto simp: less_SucI)
    show "executionChain s < length (pstates s @ [Pending])" using W(7) by simp
    show "\<forall>q\<in>ran (inFlightCalls s). q < length (pstates s @ [Pending])" using W(8) by (auto simp: less_SucI)
  qed
qed


lemma wfx_cong:
  assumes "pstates s' = pstates s" "reactions s' = reactions s" "microtasks s' = microtasks s"
    "ops s' = ops s" "external s' = external s" "executionChain s' = executionChain s"
    "inFlightCalls s' = inFlightCalls s"
  shows "wfx xs s' = wfx xs s"
  using assms by (simp add: wfx_def caps_def tokOwners_def envOwned_def pst_def)

lemma wfx_length: "wfx xs s \<Longrightarrow> x \<in> set xs \<Longrightarrow> x < length (pstates s)"
  by (simp add: wfx_def caps_def)

lemma wfx_held_fresh: "wfx xs s \<Longrightarrow> length (pstates s) \<notin> set xs"
  using wfx_length by blast

lemma length_performThen [simp]: "length (pstates (performThen p f r t s)) = length (pstates s)"
  by (simp add: performThen_def split: pstate.split)

lemma promiseThen_fst [simp]: "fst (promiseThen p f r s) = length (pstates s)"
  by (simp add: promiseThen_def split_def)

lemma promiseThen_length [simp]: "length (pstates (snd (promiseThen p f r s))) = Suc (length (pstates s))"
  by (simp add: promiseThen_def split_def)

lemma wfx_promiseThen:
  assumes "wfx xs s" "p < length (pstates s)"
  shows "wfx xs (snd (promiseThen p f r s))"
proof -
  let ?t = "length (pstates s)"
  let ?s1 = "snd (newPromise Pending s)"
  have 1: "wfx (xs @ [?t]) ?s1" using assms(1) by (rule wfx_newPromise_pending)
  have 2: "wfx (remove1 ?t (xs @ [?t])) (performThen p f r ?t ?s1)"
    using 1 assms(2) by (intro wfx_performThen) simp_all
  have "remove1 ?t (xs @ [?t]) = xs"
    using wfx_held_fresh [OF assms(1)] by (simp add: remove1_append)
  then show ?thesis using 2 by (simp add: promiseThen_def split_def)
qed

lemma wfx_executionChain:
  assumes "wfx xs s" "c < length (pstates s)"
  shows "wfx xs (s\<lparr>executionChain := c, submitted := sb\<rparr>)"
  using assms by (simp add: wfx_def caps_def tokOwners_def envOwned_def pst_def)

lemma serializeExecution_fst [simp]: "fst (serializeExecution f s) = length (pstates s)"
  by (simp add: serializeExecution_def split_def Let_def)

lemma serializeExecution_length [simp]:
  "length (pstates (snd (serializeExecution f s))) = Suc (Suc (length (pstates s)))"
  by (simp add: serializeExecution_def split_def Let_def)

lemma wfx_serializeExecution:
  assumes "wfx xs s"
  shows "wfx xs (snd (serializeExecution f s))"
proof -
  let ?s1 = "snd (promiseThen (executionChain s) (CallFn f) PassThrow s)"
  let ?s2 = "snd (promiseThen (length (pstates s)) RetUndefined RetUndefined ?s1)"
  have 1: "wfx xs ?s1" by (rule wfx_promiseThen [OF assms wfxD(7) [OF assms]])
  have 2: "wfx xs ?s2" by (rule wfx_promiseThen [OF 1]) simp
  show ?thesis
    using wfx_executionChain [OF 2, of "Suc (length (pstates s))"]
    by (simp add: serializeExecution_def split_def Let_def)
qed

lemma wfx_inFlight_update:
  assumes "wfx xs s" "p < length (pstates s)"
  shows "wfx xs (s\<lparr>inFlightCalls := (inFlightCalls s)(k \<mapsto> p)\<rparr>)"
  using assms by (auto simp: wfx_def caps_def tokOwners_def envOwned_def pst_def ran_def)

lemma wfx_inFlight_delete:
  assumes "wfx xs s"
  shows "wfx xs (s\<lparr>inFlightCalls := (inFlightCalls s)(k := None)\<rparr>)"
  using assms by (auto simp: wfx_def caps_def tokOwners_def envOwned_def pst_def ran_def)

lemma handlePptxToolCall_fst [simp]: "fst (handlePptxToolCall tn a s) = length (pstates s)"
  by (simp add: handlePptxToolCall_def split_def Let_def split: option.split)

lemma length_resolveWith [simp]: "length (pstates (resolveWith t q s)) = length (pstates s)"
  by (simp add: resolveWith_def)

lemma wfx_handlePptxToolCall:
  assumes "wfx xs s"
  shows "wfx xs (snd (handlePptxToolCall tn a s))"
proof -
  let ?ret = "length (pstates s)"
  let ?s0 = "snd (newPromise Pending s)"
  have 0: "wfx (xs @ [?ret]) ?s0" using assms by (rule wfx_newPromise_pending)
  have rm: "remove1 ?ret (xs @ [?ret]) = xs"
    using wfx_held_fresh [OF assms] by (simp add: remove1_append)
  show ?thesis
  proof (cases "handlerMapGet tn")
    case None
    then show ?thesis
      using wfx_settle_held [OF 0, of ?ret] rm
      by (simp add: handlePptxToolCall_def split_def)
  next
    case (Some t)
    show ?thesis
    proof (cases "inFlightCalls s (callKey tn a)")
      case ex: (Some existing)
      then have "existing < length (pstates s)"
        using wfxD(8) [OF assms] by (simp add: ranI)
      then show ?thesis
        using wfx_resolveWith [OF 0, of ?ret existing] rm Some ex
        by (simp add: handlePptxToolCall_def split_def Let_def)
    next
      case None
      let ?s1 = "snd (serializeExecution (Invoke t a) ?s0)"
      let ?r = "Suc (length (pstates s))"
      let ?s2 = "snd (promiseThen ?r (DeleteReturn (callKey tn a)) (DeleteThrow (callKey tn a)) ?s1)"
      let ?d = "Suc (Suc (Suc (length (pstates s))))"
      let ?s3 = "?s2\<lparr>inFlightCalls := (inFlightCalls ?s2)(callKey tn a \<mapsto> ?d)\<rparr>"
      have 1: "wfx (xs @ [?ret]) ?s1" using 0 by (rule wfx_serializeExecution)
      have 2: "wfx (xs @ [?ret]) ?s2" by (rule wfx_promiseThen [OF 1]) simp
      have 3: "wfx (xs @ [?ret]) ?s3" by (rule wfx_inFlight_update [OF 2]) simp
      have 4: "wfx (remove1 ?ret (xs @ [?ret])) (resolveWith ?ret ?d ?s3)"
        by (rule wfx_resolveWith [OF 3]) simp_all
      show ?thesis
        using 4 rm Some None
        by (simp add: handlePptxToolCall_def split_def Let_def)
    qed
  qed
qed


lemma wfx_postToIframe [simp]: "wfx xs (postToIframe cfg m s) = wfx xs s"
  by (cases "contentWindow cfg") (simp_all add: postToIframe_def Let_def wfx_def caps_def tokOwners_def envOwned_def pst_def)

lemma length_postToIframe [simp]: "length (pstates (postToIframe cfg m s)) = length (pstates s)"
  by (cases "contentWindow cfg") (simp_all add: postToIframe_def Let_def)

lemma wfx_setAuth [simp]: "wfx xs (setAuth cfg tok s) = wfx xs s"
  by (simp add: setAuth_def) (simp add: wfx_def caps_def tokOwners_def envOwned_def pst_def)

lemma length_setAuth [simp]: "length (pstates (setAuth cfg tok s)) = length (pstates s)"
  by (simp add: setAuth_def)

lemma wfx_scheduleCleanup [simp]: "wfx xs (scheduleCleanup rid s) = wfx xs s"
  by (simp add: scheduleCleanup_def wfx_def caps_def tokOwners_def envOwned_def pst_def)

lemma length_scheduleCleanup [simp]: "length (pstates (scheduleCleanup rid s)) = length (pstates s)"
  by (simp add: scheduleCleanup_def)

lemma callFn_fst [simp]: "fst (callFn f s) = length (pstates s)"
  by (simp add: callFn_def split_def Let_def)

lemma callFn_length [simp]: "length (pstates (snd (callFn f s))) = Suc (length (pstates s))"
  by (simp add: callFn_def split_def Let_def)

lemma wfx_finally:
  assumes "wfx xs s"
  shows "wfx xs (snd (promiseThen (length (pstates s)) f r (snd (newPromise (Settled (Fulfilled JUndefined)) (scheduleCleanup rid s)))))"
proof -
  have 1: "wfx xs (snd (newPromise (Settled (Fulfilled JUndefined)) (scheduleCleanup rid s)))"
    using assms by (intro wfx_newPromise_settled) simp
  show ?thesis by (rule wfx_promiseThen [OF 1]) simp
qed

lemma wfx_runCont:
  assumes "wfx xs s"
  shows "wfx xs (snd (runCont cfg c v s))"
proof (cases c)
  case (CallFn f)
  then show ?thesis using wfx_callFn [OF assms, of f] by (simp add: split_def)
next
  case (DeleteReturn k)
  then show ?thesis using wfx_inFlight_delete [OF assms, of k] by simp
next
  case (DeleteThrow k)
  then show ?thesis using wfx_inFlight_delete [OF assms, of k] by simp
next
  case (RespondErr rid)
  then show ?thesis using assms by (simp add: respondToToolCall_def split: option.split)
next
  case (FinallyThen rid)
  then show ?thesis using wfx_finally [OF assms] by (simp add: split_def Let_def)
next
  case (FinallyCatch rid)
  then show ?thesis using wfx_finally [OF assms] by (simp add: split_def Let_def)
qed (use assms in \<open>simp_all add: respondToToolCall_def\<close>)

lemma runCont_ref:
  "fst (runCont cfg c v s) = ReturnPromise q \<Longrightarrow> q < length (pstates (snd (runCont cfg c v s)))"
  by (cases c) (auto simp: split_def Let_def split: option.splits)

lemma settle_held_single: "wfx [t] s \<Longrightarrow> wfx [] (settlePromise t out s)"
  using wfx_settle_held [of "[t]" s t out] by simp

lemma wfx_runJob:
  assumes "wfx [jown j] s" "\<forall>q \<in> set (jrefs j). q < length (pstates s)"
  shows "wfx [] (runJob cfg j s)"
proof (cases j)
  case (ReactionJob c v t)
  let ?s1 = "snd (runCont cfg c v s)"
  have 1: "wfx [t] ?s1" using assms(1) ReactionJob by (simp add: wfx_runCont)
  show ?thesis
  proof (cases "fst (runCont cfg c v s)")
    case (Return x)
    then show ?thesis using settle_held_single [OF 1] ReactionJob by (simp add: split_def)
  next
    case (ReturnPromise q)
    then have "q < length (pstates ?s1)" by (rule runCont_ref)
    then show ?thesis
      using wfx_resolveWith [OF 1, of t q] ReactionJob ReturnPromise by (simp add: split_def)
  next
    case (Throw e)
    then show ?thesis using settle_held_single [OF 1] ReactionJob by (simp add: split_def)
  qed
next
  case (SettleJob out t)
  then show ?thesis using settle_held_single [of t s out] assms(1) by simp
next
  case (ThenableJob t q)
  then have q: "q < length (pstates s)" using assms(2) by simp
  show ?thesis
  proof (cases "pst s q")
    case Pending
    then show ?thesis
      using wfx_addReaction [of "[t]" s "Adopt q t"] assms(1) ThenableJob q by simp
  next
    case (Settled out)
    then show ?thesis
      using wfx_enqueueJob [of "[t]" s "reactionJob out (Adopt q t)"] assms(1) ThenableJob by simp
  qed
qed


lemma handlePptxToolCall_length:
  "length (pstates (snd (handlePptxToolCall tn a s))) =
     (case handlerMapGet tn of None \<Rightarrow> Suc (length (pstates s))
      | Some t \<Rightarrow> (case inFlightCalls s (callKey tn a) of
           Some e \<Rightarrow> Suc (length (pstates s)) | None \<Rightarrow> length (pstates s) + 4))"
  by (simp add: handlePptxToolCall_def split_def Let_def split: option.split)

lemma handlePptxToolCall_length_le:
  "length (pstates s) < length (pstates (snd (handlePptxToolCall tn a s)))"
  by (simp add: handlePptxToolCall_def split_def Let_def split: option.split)

lemma wfx_external:
  assumes "wfx (xs @ [p]) s"
  shows "wfx xs (s\<lparr>external := external s @ [p]\<rparr>)"
proof -
  have "caps xs (s\<lparr>external := external s @ [p]\<rparr>) = caps (xs @ [p]) s"
    by (simp add: caps_def tokOwners_def envOwned_def)
  then show ?thesis
    using assms by (simp add: wfx_def tokOwners_def envOwned_def pst_def caps_def)
qed

lemma callOnToolCall_fst [simp]: "fst (callOnToolCall h tool a rid s) = length (pstates s)"
  by (cases h) (simp_all add: split_def Let_def)

lemma callOnToolCall_length: "length (pstates s) < length (pstates (snd (callOnToolCall h tool a rid s)))"
proof (cases h)
  case PptxBridge
  then show ?thesis
    using handlePptxToolCall_length_le [of "snd (newPromise Pending s)" tool a]
    by (simp add: split_def Let_def)
next
  case ExternalHandler
  then show ?thesis by (simp add: split_def Let_def)
qed

lemma wfx_callOnToolCall:
  assumes "wfx xs s"
  shows "wfx xs (snd (callOnToolCall h tool a rid s))"
proof (cases h)
  case PptxBridge
  let ?ret = "length (pstates s)"
  let ?s0 = "snd (newPromise Pending s)"
  let ?s1 = "snd (handlePptxToolCall tool a ?s0)"
  have 0: "wfx (xs @ [?ret]) ?s0" using assms by (rule wfx_newPromise_pending)
  have 1: "wfx (xs @ [?ret]) ?s1" using 0 by (rule wfx_handlePptxToolCall)
  have rm: "remove1 ?ret (xs @ [?ret]) = xs"
    using wfx_held_fresh [OF assms] by (simp add: remove1_append)
  have "Suc ?ret < length (pstates ?s1)"
    using handlePptxToolCall_length_le [of ?s0 tool a] by simp
  then have 2: "wfx (remove1 ?ret (xs @ [?ret])) (resolveWith ?ret (Suc ?ret) ?s1)"
    by (intro wfx_resolveWith [OF 1]) simp_all
  show ?thesis using 2 rm PptxBridge by (simp add: split_def Let_def)
next
  case ExternalHandler
  have 0: "wfx (xs @ [length (pstates s)]) (snd (newPromise Pending s))"
    using assms by (rule wfx_newPromise_pending)
  show ?thesis using wfx_external [OF 0] ExternalHandler by (simp add: split_def Let_def)
qed

lemma wfx_field_updates [simp]:
  "wfx xs (s\<lparr>handledRequestIds := h\<rparr>) = wfx xs s"
  "wfx xs (s\<lparr>callbackLog := c\<rparr>) = wfx xs s"
  "wfx xs (s\<lparr>isReady := b\<rparr>) = wfx xs s"
  "wfx xs (s\<lparr>readyCallbacks := rc\<rparr>) = wfx xs s"
  "wfx xs (s\<lparr>now := n\<rparr>) = wfx xs s"
  "wfx xs (s\<lparr>timers := tm\<rparr>) = wfx xs s"
  "wfx xs (s\<lparr>cachedToken := tok\<rparr>) = wfx xs s"
  "wfx xs (s\<lparr>outbox := ob\<rparr>) = wfx xs s"
  by (simp_all add: wfx_def caps_def tokOwners_def envOwned_def pst_def)

lemma wfx_respond_chain:
  assumes "wfx xs s'"
    and "p0 = length (pstates s')"
    and "p1 = length (pstates (snd (callOnToolCall h tool a rid s')))"
    and "p2 = Suc p1"
  shows "wfx xs
      (snd (promiseThen p2 (FinallyThen rid) (FinallyCatch rid)
         (snd (promiseThen p1 PassValue (RespondErr rid)
            (snd (promiseThen p0 (RespondOk rid) PassThrow
                (snd (callOnToolCall h tool a rid s'))))))))"
proof -
  let ?s2 = "snd (callOnToolCall h tool a rid s')"
  have 2: "wfx xs ?s2" using assms(1) by (rule wfx_callOnToolCall)
  have l: "p0 < length (pstates ?s2)" unfolding assms(2) by (rule callOnToolCall_length)
  have 3: "wfx xs (snd (promiseThen p0 (RespondOk rid) PassThrow ?s2))"
    by (rule wfx_promiseThen [OF 2 l])
  have 4: "wfx xs (snd (promiseThen p1 PassValue (RespondErr rid)
              (snd (promiseThen p0 (RespondOk rid) PassThrow ?s2))))"
    by (rule wfx_promiseThen [OF 3]) (simp add: assms)
  show ?thesis by (rule wfx_promiseThen [OF 4]) (simp add: assms)
qed

lemma wfx_handleToolCall:
  assumes "wfx xs s"
  shows "wfx xs (handleToolCall cfg payload s)"
  using assms
  by (auto simp: handleToolCall_def split_def Let_def split: option.split intro!: wfx_respond_chain)

lemma wfx_handleMessage:
  assumes "wfx xs s"
  shows "wfx xs (handleMessage cfg ev s)"
proof -
  have tr: "wfx xs (snd (promiseThen (length (pstates s)) SetAuthIfToken PassThrow
              (snd (newPromise Pending s)
               \<lparr>external := external (snd (newPromise Pending s)) @ [length (pstates s)],
                  callbackLog := cl\<rparr>)))" for cl
  proof -
    have 0: "wfx (xs @ [length (pstates s)]) (snd (newPromise Pending s))"
      using assms by (rule wfx_newPromise_pending)
    have 1: "wfx xs (snd (newPromise Pending s)\<lparr>external := external (snd (newPromise Pending s)) @ [length (pstates s)]\<rparr>)"
      by (rule wfx_external [OF 0])
    have 2: "wfx xs (snd (newPromise Pending s)\<lparr>external := external (snd (newPromise Pending s)) @ [length (pstates s)], callbackLog := cl\<rparr>)"
      using 1 by simp
    show ?thesis by (rule wfx_promiseThen [OF 2]) simp
  qed
  show ?thesis
    using assms tr
    by (simp add: handleMessage_def Let_def split_def wfx_handleToolCall)
qed

lemma wf_step:
  assumes "wf s"
  shows "wf (step cfg e s)"
proof (cases e)
  case Micro
  show ?thesis
  proof (cases "microtasks s")
    case Nil
    then show ?thesis using assms Micro by simp
  next
    case (Cons j js)
    have 1: "wfx [jown j] (s\<lparr>microtasks := js\<rparr>)"
      using assms Cons unfolding wf_def by (rule wfx_dequeue)
    have 2: "\<forall>q \<in> set (jrefs j). q < length (pstates (s\<lparr>microtasks := js\<rparr>))"
      using wfxD(6) [OF assms [unfolded wf_def], of j] Cons by simp
    show ?thesis
      using wfx_runJob [OF 1 2] Micro Cons by (simp add: wf_def)
  qed
next
  case (Settle p out)
  then show ?thesis
    using assms wfx_settle_env [of "[]" s p out] by (simp add: wf_def)
next
  case (Call tn a)
  then show ?thesis using assms wfx_handlePptxToolCall [of "[]" s] by (simp add: wf_def)
next
  case (Message ev)
  then show ?thesis using assms wfx_handleMessage [of "[]" s] by (simp add: wf_def)
next
  case (TimerFire i)
  then show ?thesis using assms by (simp add: wf_def fireTimer_def)
next
  case (ApiOnReady cb)
  then show ?thesis using assms by (simp add: wf_def onReady_def)
qed (use assms in \<open>simp_all add: wf_def registerTools_def setConfig_def toggle_def newConversation_def\<close>)

lemma wf_init: "wf init"
  by (simp add: wf_def wfx_def init_def caps_def tokOwners_def envOwned_def pst_def)

lemma wf_exec: "wf s \<Longrightarrow> wf (exec cfg es s)"
  by (induction es arbitrary: s) (simp_all add: wf_step)

lemma wf_run: "wf (run cfg es)"
  by (simp add: run_def wf_exec wf_init)

section \<open>Every registration is waiting, queued or done\<close>

lemma ext_refl: "ext s s"
  by (simp add: ext_def)

lemma ext_trans:
  assumes "ext s s'" "ext s' s''"
  shows "ext s s''"
  unfolding ext_def
proof (intro conjI)
  show "length (pstates s) \<le> length (pstates s'')"
    using assms by (simp add: ext_def)
  show "\<forall>p out. p < length (pstates s) \<longrightarrow> pst s p = Settled out \<longrightarrow> pst s'' p = Settled out"
    using assms by (simp add: ext_def)
  show "\<forall>r\<in>set (reactions s). r \<in> set (reactions s'')
         \<or> (\<exists>out. src r < length (pstates s'') \<and> pst s'' (src r) = Settled out
               \<and> reactionJob out r \<in> set (microtasks s''))"
  proof
    fix r assume r: "r \<in> set (reactions s)"
    then consider (a) "r \<in> set (reactions s')"
      | (b) out where "src r < length (pstates s')" "pst s' (src r) = Settled out"
          "reactionJob out r \<in> set (microtasks s')"
      using assms(1) unfolding ext_def by blast
    then show "r \<in> set (reactions s'')
         \<or> (\<exists>out. src r < length (pstates s'') \<and> pst s'' (src r) = Settled out
               \<and> reactionJob out r \<in> set (microtasks s''))"
    proof cases
      case a
      then show ?thesis using assms(2) unfolding ext_def by blast
    next
      case b
      have "src r < length (pstates s'')" using b(1) assms(2) by (simp add: ext_def)
      moreover have "pst s'' (src r) = Settled out" using b(1,2) assms(2) by (simp add: ext_def)
      moreover have "reactionJob out r \<in> set (microtasks s'')"
        using b(3) assms(2) unfolding ext_def by blast
      ultimately show ?thesis by blast
    qed
  qed
  show "set (microtasks s) \<subseteq> set (microtasks s'')"
    using assms unfolding ext_def by blast
  show "set (adoptions s) \<subseteq> set (adoptions s'')"
    using assms unfolding ext_def by blast
  show "set (derived s) \<subseteq> set (derived s'')"
    using assms unfolding ext_def by blast
qed

lemma jown_reactionJob' [simp]: "jown (reactionJob out R) = rown R"
  by (cases out; cases R) simp_all

lemma ephase_ext:
  assumes "ephase s R" "ext s s'" "src R < length (pstates s)" "rown R < length (pstates s)"
  shows "ephase s' R"
proof -
  have E: "length (pstates s) \<le> length (pstates s')"
    "\<And>p out. p < length (pstates s) \<Longrightarrow> pst s p = Settled out \<Longrightarrow> pst s' p = Settled out"
    "\<And>r. r \<in> set (reactions s) \<Longrightarrow> r \<in> set (reactions s')
         \<or> (\<exists>out. src r < length (pstates s') \<and> pst s' (src r) = Settled out
               \<and> reactionJob out r \<in> set (microtasks s'))"
    "set (microtasks s) \<subseteq> set (microtasks s')"
    "set (adoptions s) \<subseteq> set (adoptions s')"
    using assms(2) unfolding ext_def by blast+
  consider (t) "thenableQueued s R" | (r) "R \<in> set (reactions s)"
    | (q) out where "pst s (src R) = Settled out" "reactionJob out R \<in> set (microtasks s)"
    | (d) out where "pst s (src R) = Settled out" "jobDone s (reactionJob out R)"
    using assms(1) unfolding ephase_def dphase_def by blast
  then show ?thesis
  proof cases
    case t
    then have "thenableQueued s' R" using E(4) by (cases R) auto
    then show ?thesis by (simp add: ephase_def)
  next
    case r
    then show ?thesis using E(3) [OF r] unfolding ephase_def dphase_def by blast
  next
    case q
    have "pst s' (src R) = Settled out" using E(2) assms(3) q(1) by simp
    then show ?thesis using q(2) E(4) unfolding ephase_def dphase_def by blast
  next
    case d
    have 1: "pst s' (src R) = Settled out" using E(2) assms(3) d(1) by simp
    have 2: "jobDone s' (reactionJob out R)"
    proof (cases "jobResult (reactionJob out R)")
      case None
      then show ?thesis using d(2) E(5) unfolding jobDone_def by auto
    next
      case (Some res)
      then have "pst s (rown R) = Settled res" using d(2) unfolding jobDone_def by simp
      then have "pst s' (rown R) = Settled res" using E(2) assms(4) by simp
      then show ?thesis using Some unfolding jobDone_def by simp
    qed
    show ?thesis using 1 2 unfolding ephase_def dphase_def by blast
  qed
qed

lemma extD:
  assumes "ext s s'"
  shows "length (pstates s) \<le> length (pstates s')"
    and "\<And>p out. p < length (pstates s) \<Longrightarrow> pst s p = Settled out \<Longrightarrow> pst s' p = Settled out"
    and "\<And>r. r \<in> set (reactions s) \<Longrightarrow> r \<in> set (reactions s')
         \<or> (\<exists>out. src r < length (pstates s') \<and> pst s' (src r) = Settled out
               \<and> reactionJob out r \<in> set (microtasks s'))"
    and "set (microtasks s) \<subseteq> set (microtasks s')"
    and "set (adoptions s) \<subseteq> set (adoptions s')"
    and "set (derived s) \<subseteq> set (derived s')"
  using assms unfolding ext_def by blast+

lemma entities_ext: "ext s s' \<Longrightarrow> set (entities s) \<subseteq> set (entities s')"
  unfolding entities_def using extD(5,6) by fastforce

lemma jobKnown_ext:
  assumes "jobKnown s j" "ext s s'"
    "\<forall>R \<in> set (entities s). src R < length (pstates s)"
  shows "jobKnown s' j"
proof (cases j)
  case (ThenableJob t q)
  then show ?thesis using assms(1) entities_ext [OF assms(2)] by auto
next
  case (ReactionJob c v t)
  then obtain R out where R: "R \<in> set (entities s)" "pst s (src R) = Settled out" "reactionJob out R = j"
    using assms(1) by auto
  have "pst s' (src R) = Settled out" using extD(2) [OF assms(2)] assms(3) R(1,2) by simp
  then show ?thesis using R entities_ext [OF assms(2)] ReactionJob by auto
next
  case (SettleJob o' t)
  then obtain R out where R: "R \<in> set (entities s)" "pst s (src R) = Settled out" "reactionJob out R = j"
    using assms(1) by auto
  have "pst s' (src R) = Settled out" using extD(2) [OF assms(2)] assms(3) R(1,2) by simp
  then show ?thesis using R entities_ext [OF assms(2)] SettleJob by auto
qed

lemma ginvD:
  assumes "ginv xs s"
  shows "distinct (map rown (derived s))" "distinct (map fst (adoptions s))"
    and "\<And>R. R \<in> set (entities s) \<Longrightarrow> src R < length (pstates s)"
    and "\<And>R. R \<in> set (entities s) \<Longrightarrow> rown R < length (pstates s)"
    and "\<And>R. R \<in> set (entities s) \<Longrightarrow> rown R \<notin> set xs \<Longrightarrow> ephase s R"
    and "\<And>r. r \<in> set (reactions s) \<Longrightarrow> r \<in> set (entities s)"
    and "\<And>j. j \<in> set (microtasks s) \<Longrightarrow> jobKnown s j"
  using assms unfolding ginv_def by blast+

lemma ginv_extI:
  assumes G: "ginv xs s" and E: "ext s s'"
    and dd: "distinct (map rown (derived s'))" "distinct (map fst (adoptions s'))"
    and rng: "\<And>R. R \<in> set (entities s') \<Longrightarrow> R \<notin> set (entities s)
              \<Longrightarrow> src R < length (pstates s') \<and> rown R < length (pstates s')"
    and new: "\<And>R. R \<in> set (entities s') \<Longrightarrow> R \<notin> set (entities s) \<Longrightarrow> rown R \<notin> set xs' \<Longrightarrow> ephase s' R"
    and rel: "\<And>R. R \<in> set (entities s) \<Longrightarrow> rown R \<in> set xs \<Longrightarrow> rown R \<notin> set xs' \<Longrightarrow> ephase s' R"
    and rs: "\<And>r. r \<in> set (reactions s') \<Longrightarrow> r \<notin> set (reactions s) \<Longrightarrow> r \<in> set (entities s')"
    and js: "\<And>j. j \<in> set (microtasks s') \<Longrightarrow> j \<notin> set (microtasks s) \<Longrightarrow> jobKnown s' j"
  shows "ginv xs' s'"
  unfolding ginv_def
proof (intro conjI ballI impI)
  note GD = ginvD [OF G]
  note ED = extD [OF E]
  show "distinct (map rown (derived s'))" "distinct (map fst (adoptions s'))" by (fact dd)+
  {
    fix R assume R: "R \<in> set (entities s')"
    show "src R < length (pstates s')"
      using rng [OF R] GD(3) [of R] ED(1) by (cases "R \<in> set (entities s)") auto
    show "rown R < length (pstates s')"
      using rng [OF R] GD(4) [of R] ED(1) by (cases "R \<in> set (entities s)") auto
  }
  {
    fix R assume R: "R \<in> set (entities s')" "rown R \<notin> set xs'"
    show "ephase s' R"
    proof (cases "R \<in> set (entities s)")
      case False
      then show ?thesis using new R by blast
    next
      case True
      show ?thesis
      proof (cases "rown R \<in> set xs")
        case True
        then show ?thesis using rel \<open>R \<in> set (entities s)\<close> R(2) by blast
      next
        case False
        then show ?thesis
          using ephase_ext [OF GD(5) [OF True False] E GD(3) [OF True] GD(4) [OF True]] by simp
      qed
    qed
  }
  {
    fix r assume r: "r \<in> set (reactions s')"
    show "r \<in> set (entities s')"
      using rs [OF r] GD(6) [of r] entities_ext [OF E] by (cases "r \<in> set (reactions s)") auto
  }
  {
    fix j assume j: "j \<in> set (microtasks s')"
    show "jobKnown s' j"
    proof (cases "j \<in> set (microtasks s)")
      case True
      show ?thesis
        by (rule jobKnown_ext [OF GD(7) [OF True] E]) (use GD(3) in blast)
    next
      case False
      then show ?thesis using js j by blast
    qed
  }
qed

text \<open>Every operation but taking a job from the queue extends the state.\<close>

lemma ext_same:
  assumes "pstates s' = pstates s" "reactions s' = reactions s" "microtasks s' = microtasks s"
    "adoptions s' = adoptions s" "derived s' = derived s"
  shows "ext s s'"
  using assms by (simp add: ext_def pst_def)

lemma ext_newPromise: "ext s (snd (newPromise st s))"
  by (simp add: ext_def newPromise_def pst_def nth_append)

lemma ext_enqueueJob: "ext s (enqueueJob j s)"
  by (auto simp: ext_def enqueueJob_def pst_def)

lemma ext_addReaction: "ext s (addReaction r s)"
  by (auto simp: ext_def addReaction_def pst_def)

lemma ext_settlePromise:
  assumes "p < length (pstates s)"
  shows "ext s (settlePromise p out s)"
proof (cases "pst s p = Pending")
  case False
  then show ?thesis by (simp add: settlePromise_not_pending ext_refl)
next
  case True
  show ?thesis
    unfolding ext_def
  proof (intro conjI ballI allI impI)
    show "length (pstates s) \<le> length (pstates (settlePromise p out s))" by simp
    show "pst (settlePromise p out s) q = Settled o'" if "q < length (pstates s)" "pst s q = Settled o'" for q o'
      using that True assms by (auto simp: pst_settlePromise)
    show "r \<in> set (reactions (settlePromise p out s))
         \<or> (\<exists>out'. src r < length (pstates (settlePromise p out s)) \<and> pst (settlePromise p out s) (src r) = Settled out'
               \<and> reactionJob out' r \<in> set (microtasks (settlePromise p out s)))"
      if "r \<in> set (reactions s)" for r
    proof (cases "src r = p")
      case True
      then have "reactionJob out r \<in> set (microtasks (settlePromise p out s))"
        using that \<open>pst s p = Pending\<close> by (simp add: microtasks_settlePromise)
      moreover have "pst (settlePromise p out s) (src r) = Settled out"
        using True \<open>pst s p = Pending\<close> assms by (simp add: pst_settlePromise)
      ultimately show ?thesis using True assms by auto
    next
      case False
      then show ?thesis using that True by (simp add: reactions_settlePromise)
    qed
    show "set (microtasks s) \<subseteq> set (microtasks (settlePromise p out s))"
      using True by (simp add: microtasks_settlePromise)
    show "set (adoptions s) \<subseteq> set (adoptions (settlePromise p out s))"
      using True by (simp add: settlePromise_def)
    show "set (derived s) \<subseteq> set (derived (settlePromise p out s))"
      using True by (simp add: settlePromise_def)
  qed
qed

lemma ext_performThen: "ext s (performThen p f r t s)"
proof -
  have 0: "ext s (s\<lparr>derived := derived s @ [Derive p f r t]\<rparr>)"
    by (auto simp: ext_def pst_def)
  show ?thesis
    by (cases "pst s p")
       (auto simp: performThen_def intro: ext_trans [OF 0 ext_addReaction] ext_trans [OF 0 ext_enqueueJob])
qed

lemma ext_promiseThen: "ext s (snd (promiseThen p f r s))"
  unfolding promiseThen_def
  by (simp add: split_def Let_def) (rule ext_trans [OF ext_newPromise ext_performThen])

lemma ext_resolveWith: "ext s (resolveWith t q s)"
proof -
  have 0: "ext s (s\<lparr>adoptions := adoptions s @ [(t, q)]\<rparr>)"
    by (auto simp: ext_def pst_def)
  show ?thesis unfolding resolveWith_def by (rule ext_trans [OF 0 ext_enqueueJob])
qed

lemma ext_callFn: "ext s (snd (callFn f s))"
proof -
  have "ext (snd (newPromise Pending s)) (snd (callFn f s))"
    by (rule ext_same) (simp_all add: callFn_def newPromise_def)
  then show ?thesis using ext_trans [OF ext_newPromise] by blast
qed

lemma ext_serializeExecution: "ext s (snd (serializeExecution f s))"
proof -
  let ?s1 = "snd (promiseThen (executionChain s) (CallFn f) PassThrow s)"
  let ?s2 = "snd (promiseThen (length (pstates s)) RetUndefined RetUndefined ?s1)"
  have "ext ?s2 (snd (serializeExecution f s))"
    by (rule ext_same) (simp_all add: serializeExecution_def split_def Let_def)
  then show ?thesis
    using ext_trans [OF ext_promiseThen ext_promiseThen] ext_trans by blast
qed

lemma ext_handlePptxToolCall: "ext s (snd (handlePptxToolCall tn a s))"
proof -
  let ?s0 = "snd (newPromise Pending s)"
  have 0: "ext s ?s0" by (rule ext_newPromise)
  show ?thesis
  proof (cases "handlerMapGet tn")
    case None
    have "ext ?s0 (settlePromise (length (pstates s)) (Rejected (unknownToolError tn)) ?s0)"
      by (rule ext_settlePromise) simp
    then show ?thesis
      using None ext_trans [OF 0] by (simp add: handlePptxToolCall_def split_def)
  next
    case (Some t)
    show ?thesis
    proof (cases "inFlightCalls s (callKey tn a)")
      case ex: (Some existing)
      then show ?thesis
        using Some ext_trans [OF 0 ext_resolveWith]
        by (simp add: handlePptxToolCall_def split_def Let_def)
    next
      case None
      let ?s1 = "snd (serializeExecution (Invoke t a) ?s0)"
      let ?s2 = "snd (promiseThen (Suc (length (pstates s))) (DeleteReturn (callKey tn a)) (DeleteThrow (callKey tn a)) ?s1)"
      let ?s3 = "?s2\<lparr>inFlightCalls := (inFlightCalls ?s2)(callKey tn a \<mapsto> Suc (Suc (Suc (length (pstates s)))))\<rparr>"
      have 3: "ext ?s2 ?s3" by (rule ext_same) simp_all
      have "ext s ?s2"
        using ext_trans [OF 0 ext_trans [OF ext_serializeExecution ext_promiseThen]] .
      then have "ext s (resolveWith (length (pstates s)) (Suc (Suc (Suc (length (pstates s))))) ?s3)"
        using ext_trans [OF _ ext_trans [OF 3 ext_resolveWith]] by blast
      then show ?thesis
        using Some None by (simp add: handlePptxToolCall_def split_def Let_def)
    qed
  qed
qed

lemma ext_postToIframe: "ext s (postToIframe cfg m s)"
  by (cases "contentWindow cfg") (simp_all add: postToIframe_def Let_def ext_refl ext_same)

lemma ext_setAuth: "ext s (setAuth cfg tok s)"
proof -
  have "ext s (s\<lparr>cachedToken := tok\<rparr>)" by (rule ext_same) simp_all
  then show ?thesis unfolding setAuth_def using ext_trans [OF _ ext_postToIframe] by blast
qed

lemma ext_finally:
  "ext s (snd (promiseThen (length (pstates s)) f r
            (snd (newPromise (Settled (Fulfilled JUndefined)) (scheduleCleanup rid s)))))"
proof -
  have 0: "ext s (scheduleCleanup rid s)" by (rule ext_same) (simp_all add: scheduleCleanup_def)
  show ?thesis
    using ext_trans [OF 0 ext_trans [OF ext_newPromise ext_promiseThen]] .
qed

lemma ext_runCont: "ext s (snd (runCont cfg c v s))"
proof (cases c)
  case (CallFn f)
  then show ?thesis using ext_callFn [of s f] by (simp add: split_def)
next
  case (DeleteReturn k)
  then show ?thesis by (simp add: ext_same)
next
  case (DeleteThrow k)
  then show ?thesis by (simp add: ext_same)
next
  case (RespondOk rid)
  then show ?thesis by (simp add: respondToToolCall_def ext_postToIframe)
next
  case (RespondErr rid)
  then show ?thesis by (simp add: respondToToolCall_def ext_postToIframe ext_refl split: option.split)
next
  case (FinallyThen rid)
  then show ?thesis using ext_finally [of s] by (simp add: split_def Let_def)
next
  case (FinallyCatch rid)
  then show ?thesis using ext_finally [of s] by (simp add: split_def Let_def)
next
  case SetAuthIfToken
  then show ?thesis by (simp add: ext_setAuth ext_refl)
qed (simp_all add: ext_refl)

lemma runCont_length: "length (pstates s) \<le> length (pstates (snd (runCont cfg c v s)))"
  using extD(1) [OF ext_runCont] .

lemma ext_runJob:
  assumes "jown j < length (pstates s)"
  shows "ext s (runJob cfg j s)"
proof (cases j)
  case (ReactionJob c v t)
  let ?s1 = "snd (runCont cfg c v s)"
  have t: "t < length (pstates ?s1)"
    using assms ReactionJob runCont_length [of s cfg c v] by simp
  show ?thesis
  proof (cases "fst (runCont cfg c v s)")
    case (Return x)
    then show ?thesis
      using ReactionJob ext_trans [OF ext_runCont ext_settlePromise [OF t]] by (simp add: split_def)
  next
    case (ReturnPromise q)
    then show ?thesis
      using ReactionJob ext_trans [OF ext_runCont ext_resolveWith] by (simp add: split_def)
  next
    case (Throw e)
    then show ?thesis
      using ReactionJob ext_trans [OF ext_runCont ext_settlePromise [OF t]] by (simp add: split_def)
  qed
next
  case (SettleJob out t)
  then show ?thesis using assms ext_settlePromise [of t s out] by simp
next
  case (ThenableJob t q)
  then show ?thesis
    by (cases "pst s q") (simp_all add: ext_addReaction ext_enqueueJob)
qed

lemma ext_callOnToolCall: "ext s (snd (callOnToolCall h tool a rid s))"
proof (cases h)
  case PptxBridge
  then show ?thesis
    using ext_trans [OF ext_newPromise ext_trans [OF ext_handlePptxToolCall ext_resolveWith]]
    by (simp add: split_def Let_def)
next
  case ExternalHandler
  have "ext (snd (newPromise Pending s))
          (snd (newPromise Pending s)\<lparr>external := external (snd (newPromise Pending s)) @ [length (pstates s)]\<rparr>)"
    by (rule ext_same) simp_all
  then show ?thesis
    using ExternalHandler ext_trans [OF ext_newPromise] by (simp add: split_def Let_def)
qed

lemma ext_handleToolCall: "ext s (handleToolCall cfg payload s)"
proof -
  have main: "ext s
      (snd (promiseThen p2 (FinallyThen rid) (FinallyCatch rid)
         (snd (promiseThen p1 PassValue (RespondErr rid)
            (snd (promiseThen p0 (RespondOk rid) PassThrow
                (snd (callOnToolCall h tool a rid
                   (s\<lparr>handledRequestIds := hr, callbackLog := cl\<rparr>)))))))))"
    for p0 p1 p2 rid h tool a hr cl
  proof -
    have 0: "ext s (s\<lparr>handledRequestIds := hr, callbackLog := cl\<rparr>)"
      by (rule ext_same) simp_all
    show ?thesis
      using ext_trans [OF 0 ext_trans [OF ext_callOnToolCall
              ext_trans [OF ext_promiseThen ext_trans [OF ext_promiseThen ext_promiseThen]]]] .
  qed
  have hr: "ext s (s\<lparr>handledRequestIds := hr\<rparr>)" for hr
    by (rule ext_same) simp_all
  show ?thesis
    by (auto simp: handleToolCall_def split_def Let_def ext_refl hr main split: option.split)
qed

lemma ext_handleMessage: "ext s (handleMessage cfg ev s)"
proof -
  have tr: "ext s (snd (promiseThen (length (pstates s)) SetAuthIfToken PassThrow
              (snd (newPromise Pending s)
               \<lparr>external := ex, callbackLog := cl\<rparr>)))" for cl ex
  proof -
    have 1: "ext (snd (newPromise Pending s)) (snd (newPromise Pending s)\<lparr>external := ex, callbackLog := cl\<rparr>)"
      by (rule ext_same) simp_all
    show ?thesis using ext_trans [OF ext_newPromise ext_trans [OF 1 ext_promiseThen]] .
  qed
  have f: "ext s (s\<lparr>isReady := b, callbackLog := cl, readyCallbacks := rc\<rparr>)"
    "ext s (s\<lparr>callbackLog := cl\<rparr>)" for b cl rc
    by (rule ext_same; simp)+
  show ?thesis
    by (simp add: handleMessage_def Let_def split_def ext_refl ext_handleToolCall ext_setAuth tr f)
qed

lemma ext_step:
  assumes "wf s"
  shows "case (e, microtasks s) of
           (Micro, j # js) \<Rightarrow> ext (s\<lparr>microtasks := js\<rparr>) (step cfg e s)
         | _ \<Rightarrow> ext s (step cfg e s)"
proof (cases e)
  case Micro
  show ?thesis
  proof (cases "microtasks s")
    case Nil
    then show ?thesis using Micro by (simp add: ext_refl)
  next
    case (Cons j js)
    have "jown j \<in># caps [] s" using Cons by (simp add: caps_def tokOwners_def)
    then have "jown j < length (pstates (s\<lparr>microtasks := js\<rparr>))"
      using wfxD(2) [OF assms [unfolded wf_def]] by simp
    then show ?thesis using Micro Cons ext_runJob by simp
  qed
next
  case (Settle p out)
  show ?thesis
  proof (cases "p \<in> set (envOwned s) \<and> pst s p = Pending")
    case True
    then have "p \<in># caps [] s" by (simp add: caps_def)
    then have "p < length (pstates s)" using wfxD(2) [OF assms [unfolded wf_def]] by simp
    then show ?thesis using Settle True ext_settlePromise by (auto split: list.split)
  next
    case False
    then show ?thesis using Settle by (auto simp: ext_refl split: list.split)
  qed
next
  case (Call tn a)
  then show ?thesis using ext_handlePptxToolCall by (simp split: list.split)
next
  case (Message ev)
  then show ?thesis using ext_handleMessage by (simp split: list.split)
next
  case (Tick d)
  then show ?thesis by (simp add: ext_same split: list.split)
next
  case (TimerFire i)
  then show ?thesis by (simp add: fireTimer_def ext_same ext_refl split: list.split)
next
  case (ApiOnReady cb)
  then show ?thesis by (simp add: onReady_def ext_same split: list.split)
next
  case (ApiSetAuth tok)
  then show ?thesis by (simp add: ext_setAuth split: list.split)
next
  case (ApiRegisterTools tools)
  then show ?thesis by (simp add: registerTools_def ext_postToIframe split: list.split)
next
  case (ApiSetConfig c)
  then show ?thesis by (simp add: setConfig_def ext_postToIframe split: list.split)
next
  case (ApiToggle v)
  then show ?thesis by (simp add: toggle_def ext_postToIframe split: list.split)
next
  case ApiNewConversation
  then show ?thesis by (simp add: newConversation_def ext_postToIframe split: list.split)
qed

lemma ginv_weaken: "ginv xs s \<Longrightarrow> set xs \<subseteq> set xs' \<Longrightarrow> ginv xs' s"
  unfolding ginv_def by blast

lemma ginv_same:
  assumes "pstates s' = pstates s" "reactions s' = reactions s" "microtasks s' = microtasks s"
    "adoptions s' = adoptions s" "derived s' = derived s"
  shows "ginv xs s' = ginv xs s"
proof -
  have e: "entities s' = entities s" using assms by (simp add: entities_def)
  have p: "pst s' = pst s" using assms by (simp add: pst_def fun_eq_iff)
  have k: "jobKnown s' j = jobKnown s j" for j by (cases j) (simp_all add: e p)
  have d: "jobDone s' j = jobDone s j" for j by (simp add: jobDone_def p assms cong: option.case_cong)
  have t: "thenableQueued s' R = thenableQueued s R" for R by (cases R) (simp_all add: assms)
  have ph: "ephase s' R = ephase s R" for R
    by (simp add: ephase_def dphase_def t d p assms)
  show ?thesis by (simp add: ginv_def e k ph assms)
qed

lemma ginv_newPromise:
  assumes "ginv xs s"
  shows "ginv (xs @ ys) (snd (newPromise st s))"
proof (rule ginv_extI [OF assms ext_newPromise])
  let ?s' = "snd (newPromise st s)"
  have e: "entities ?s' = entities s" by (simp add: entities_def newPromise_def)
  show "distinct (map rown (derived ?s'))" "distinct (map fst (adoptions ?s'))"
    using ginvD(1,2) [OF assms] by (simp_all add: newPromise_def)
  show "\<And>R. R \<in> set (entities ?s') \<Longrightarrow> R \<notin> set (entities s)
        \<Longrightarrow> src R < length (pstates ?s') \<and> rown R < length (pstates ?s')"
    by (simp add: e)
  show "\<And>R. R \<in> set (entities ?s') \<Longrightarrow> R \<notin> set (entities s) \<Longrightarrow> rown R \<notin> set (xs @ ys) \<Longrightarrow> ephase ?s' R"
    by (simp add: e)
  show "\<And>R. R \<in> set (entities s) \<Longrightarrow> rown R \<in> set xs \<Longrightarrow> rown R \<notin> set (xs @ ys) \<Longrightarrow> ephase ?s' R"
    by simp
  show "\<And>r. r \<in> set (reactions ?s') \<Longrightarrow> r \<notin> set (reactions s) \<Longrightarrow> r \<in> set (entities ?s')"
    by simp
  show "\<And>j. j \<in> set (microtasks ?s') \<Longrightarrow> j \<notin> set (microtasks s) \<Longrightarrow> jobKnown ?s' j"
    by simp
qed

lemma promiseThen_Pending:
  assumes "pst s p = Pending" "p < length (pstates s)"
  shows "snd (promiseThen p f r s) =
           s\<lparr>pstates := pstates s @ [Pending],
             derived := derived s @ [Derive p f r (length (pstates s))],
             reactions := reactions s @ [Derive p f r (length (pstates s))]\<rparr>"
  using assms
  by (simp add: promiseThen_def newPromise_def performThen_def addReaction_def pst_def nth_append)

lemma promiseThen_Settled:
  assumes "pst s p = Settled out" "p < length (pstates s)"
  shows "snd (promiseThen p f r s) =
           s\<lparr>pstates := pstates s @ [Pending],
             derived := derived s @ [Derive p f r (length (pstates s))],
             microtasks := microtasks s @ [reactionJob out (Derive p f r (length (pstates s)))]\<rparr>"
  using assms
  by (simp add: promiseThen_def newPromise_def performThen_def enqueueJob_def pst_def nth_append)

lemma jobKnown_reactionJob:
  assumes "R \<in> set (entities s)" "pst s (src R) = Settled out"
  shows "jobKnown s (reactionJob out R)"
proof -
  have "\<exists>R' \<in> set (entities s). \<exists>out'. pst s (src R') = Settled out' \<and> reactionJob out' R' = reactionJob out R"
    using assms by blast
  then show ?thesis by (cases out; cases R) simp_all
qed

lemma rown_entities_derived:
  "rown ` set (entities s) = rown ` set (derived s) \<union> fst ` set (adoptions s)"
  by (force simp: entities_def image_Un)

lemma ginv_promiseThen:
  assumes G: "ginv xs s" and p: "p < length (pstates s)"
  shows "ginv xs (snd (promiseThen p f r s))"
proof (rule ginv_extI [OF G ext_promiseThen])
  let ?s' = "snd (promiseThen p f r s)"
  let ?D = "Derive p f r (length (pstates s))"
  note GD = ginvD [OF G]
  have dv: "derived ?s' = derived s @ [?D]" and ad: "adoptions ?s' = adoptions s"
    and ps: "pstates ?s' = pstates s @ [Pending]"
    using p by (cases "pst s p"; simp add: promiseThen_Pending promiseThen_Settled)+
  have e: "set (entities ?s') = insert ?D (set (entities s))"
    by (auto simp: entities_def dv ad)
  have pp: "pst ?s' p = pst s p" using p by (simp add: pst_def ps nth_append)
  have fresh: "length (pstates s) \<notin> rown ` set (derived s)"
    using GD(4) unfolding entities_def by fastforce
  show "distinct (map rown (derived ?s'))" using GD(1) fresh by (simp add: dv)
  show "distinct (map fst (adoptions ?s'))" using GD(2) by (simp add: ad)
  show "src R < length (pstates ?s') \<and> rown R < length (pstates ?s')"
    if "R \<in> set (entities ?s')" "R \<notin> set (entities s)" for R
    using that p by (auto simp: e ps)
  have ph: "ephase ?s' ?D"
  proof (cases "pst s p")
    case Pending
    then show ?thesis using p by (simp add: ephase_def dphase_def promiseThen_Pending)
  next
    case (Settled out)
    have "pst ?s' (src ?D) = Settled out" using pp Settled by simp
    moreover have "reactionJob out ?D \<in> set (microtasks ?s')"
      using Settled p by (simp add: promiseThen_Settled)
    ultimately show ?thesis unfolding ephase_def dphase_def by blast
  qed
  show "ephase ?s' R" if "R \<in> set (entities ?s')" "R \<notin> set (entities s)" "rown R \<notin> set xs" for R
    using that ph by (auto simp: e)
  show "ephase ?s' R" if "R \<in> set (entities s)" "rown R \<in> set xs" "rown R \<notin> set xs" for R
    using that by simp
  show "r' \<in> set (entities ?s')" if "r' \<in> set (reactions ?s')" "r' \<notin> set (reactions s)" for r'
  proof -
    have "r' = ?D"
      using that p by (cases "pst s p") (auto simp: promiseThen_Pending promiseThen_Settled)
    then show ?thesis by (simp add: e)
  qed
  show "jobKnown ?s' j" if "j \<in> set (microtasks ?s')" "j \<notin> set (microtasks s)" for j
  proof (cases "pst s p")
    case Pending
    then show ?thesis using that p by (simp add: promiseThen_Pending)
  next
    case (Settled out)
    then have j: "j = reactionJob out ?D" using that p by (simp add: promiseThen_Settled)
    have "pst ?s' (src ?D) = Settled out" using pp Settled by simp
    moreover have "?D \<in> set (entities ?s')" by (simp add: e)
    ultimately show ?thesis unfolding j by (intro jobKnown_reactionJob)
  qed
qed

lemma jobDone_ext:
  assumes "jobDone s j" "ext s s'" "jown j < length (pstates s)"
  shows "jobDone s' j"
proof (cases "jobResult j")
  case None
  then show ?thesis using assms(1) extD(5) [OF assms(2)] unfolding jobDone_def by auto
next
  case (Some res)
  then have "pst s (jown j) = Settled res" using assms(1) unfolding jobDone_def by simp
  then have "pst s' (jown j) = Settled res" using extD(2) [OF assms(2)] assms(3) by simp
  then show ?thesis using Some unfolding jobDone_def by simp
qed

lemma targetReady_ext:
  assumes T: "targetReady s t res" and E: "ext s s'"
    and rng: "\<And>R. R \<in> set (entities s) \<Longrightarrow> src R < length (pstates s) \<and> rown R < length (pstates s)"
    and new: "\<And>R. R \<in> set (entities s') \<Longrightarrow> R \<notin> set (entities s) \<Longrightarrow> rown R \<noteq> t"
  shows "targetReady s' t res"
  unfolding targetReady_def
proof (intro ballI impI)
  fix R assume R: "R \<in> set (entities s')" "rown R = t"
  then have Rs: "R \<in> set (entities s)" using new by blast
  then obtain out where o: "pst s (src R) = Settled out"
    "jobResult (reactionJob out R) = res \<or> jobDone s (reactionJob out R)"
    using T R(2) unfolding targetReady_def by blast
  have 1: "pst s' (src R) = Settled out" using extD(2) [OF E] rng [OF Rs] o(1) by simp
  have 2: "jobResult (reactionJob out R) = res \<or> jobDone s' (reactionJob out R)"
    using o(2) jobDone_ext [OF _ E, of "reactionJob out R"] rng [OF Rs] by auto
  show "\<exists>out. pst s' (src R) = Settled out
          \<and> (jobResult (reactionJob out R) = res \<or> jobDone s' (reactionJob out R))"
    using 1 2 by blast
qed

lemma released: "x \<in> set xs \<Longrightarrow> x \<notin> set (remove1 t xs) \<Longrightarrow> x = t"
  by (metis in_set_remove1)

lemma ginv_resolveWith:
  assumes G: "ginv xs s" and q: "q < length (pstates s)" and t: "t < length (pstates s)"
    and na: "t \<notin> fst ` set (adoptions s)" and T: "targetReady s t None"
  shows "ginv (remove1 t xs) (resolveWith t q s)"
proof (rule ginv_extI [OF G ext_resolveWith])
  let ?s' = "resolveWith t q s"
  note GD = ginvD [OF G]
  have f: "derived ?s' = derived s" "adoptions ?s' = adoptions s @ [(t, q)]"
    "pstates ?s' = pstates s" "reactions ?s' = reactions s"
    "microtasks ?s' = microtasks s @ [ThenableJob t q]"
    by (simp_all add: resolveWith_def enqueueJob_def)
  have p: "pst ?s' = pst s" by (simp add: pst_def f fun_eq_iff)
  have e: "set (entities ?s') = insert (Adopt q t) (set (entities s))"
    by (auto simp: entities_def f)
  show "distinct (map rown (derived ?s'))" using GD(1) by (simp add: f)
  show "distinct (map fst (adoptions ?s'))" using GD(2) na by (simp add: f)
  show "src R < length (pstates ?s') \<and> rown R < length (pstates ?s')"
    if R: "R \<in> set (entities ?s')" "R \<notin> set (entities s)" for R
  proof -
    have "R = Adopt q t" using R unfolding e by blast
    then show ?thesis using q t by (simp add: f)
  qed
  show "ephase ?s' R" if R: "R \<in> set (entities ?s')" "R \<notin> set (entities s)" for R
  proof -
    have "R = Adopt q t" using R unfolding e by blast
    then show ?thesis by (simp add: ephase_def f)
  qed
  show "ephase ?s' R" if R: "R \<in> set (entities s)" "rown R \<in> set xs" "rown R \<notin> set (remove1 t xs)" for R
  proof -
    have rt: "rown R = t" by (rule released [OF R(2,3)])
    obtain out where o: "pst s (src R) = Settled out"
      "jobResult (reactionJob out R) = None \<or> jobDone s (reactionJob out R)"
      using T R(1) rt unfolding targetReady_def by blast
    have "jobDone ?s' (reactionJob out R)"
    proof (cases "jobResult (reactionJob out R)")
      case None
      then show ?thesis using rt by (simp add: jobDone_def f)
    next
      case (Some res)
      then have "jobDone s (reactionJob out R)" using o(2) by simp
      then show ?thesis using Some by (simp add: jobDone_def p)
    qed
    then show ?thesis using o(1) unfolding ephase_def dphase_def p by blast
  qed
  show "r \<in> set (entities ?s')" if "r \<in> set (reactions ?s')" "r \<notin> set (reactions s)" for r
    using that by (simp add: f)
  show "jobKnown ?s' j" if "j \<in> set (microtasks ?s')" "j \<notin> set (microtasks s)" for j
  proof -
    have "j = ThenableJob t q" using that by (simp add: f)
    then show ?thesis by (simp add: e)
  qed
qed

lemma ginv_settle:
  assumes G: "ginv xs s" and t: "t < length (pstates s)" and tp: "pst s t = Pending"
    and T: "targetReady s t (Some out)"
  shows "ginv (remove1 t xs) (settlePromise t out s)"
proof (rule ginv_extI [OF G ext_settlePromise [OF t]])
  let ?s' = "settlePromise t out s"
  note GD = ginvD [OF G]
  note E = ext_settlePromise [OF t, of out]
  have f: "derived ?s' = derived s" "adoptions ?s' = adoptions s"
    by (simp_all add: settlePromise_def)
  have e: "entities ?s' = entities s" by (simp add: entities_def f)
  have pt: "pst ?s' t = Settled out" using t tp by (simp add: pst_settlePromise)
  show "distinct (map rown (derived ?s'))" using GD(1) by (simp add: f)
  show "distinct (map fst (adoptions ?s'))" using GD(2) by (simp add: f)
  show "src R < length (pstates ?s') \<and> rown R < length (pstates ?s')"
    if "R \<in> set (entities ?s')" "R \<notin> set (entities s)" for R
    using that by (simp add: e)
  show "ephase ?s' R" if "R \<in> set (entities ?s')" "R \<notin> set (entities s)" for R
    using that by (simp add: e)
  show "ephase ?s' R" if R: "R \<in> set (entities s)" "rown R \<in> set xs" "rown R \<notin> set (remove1 t xs)" for R
  proof -
    have rt: "rown R = t" by (rule released [OF R(2,3)])
    obtain o' where o: "pst s (src R) = Settled o'"
      "jobResult (reactionJob o' R) = Some out \<or> jobDone s (reactionJob o' R)"
      using T R(1) rt unfolding targetReady_def by blast
    have 1: "pst ?s' (src R) = Settled o'" using extD(2) [OF E] GD(3) [OF R(1)] o(1) by simp
    have "jobDone ?s' (reactionJob o' R)"
      using o(2)
    proof
      assume "jobResult (reactionJob o' R) = Some out"
      then show ?thesis using pt rt by (simp add: jobDone_def)
    next
      assume "jobDone s (reactionJob o' R)"
      then show ?thesis using jobDone_ext [OF _ E] GD(4) [OF R(1)] by simp
    qed
    then show ?thesis using 1 unfolding ephase_def dphase_def by blast
  qed
  show "r \<in> set (entities ?s')" if "r \<in> set (reactions ?s')" "r \<notin> set (reactions s)" for r
    using that tp by (simp add: reactions_settlePromise)
  show "jobKnown ?s' j" if j: "j \<in> set (microtasks ?s')" "j \<notin> set (microtasks s)" for j
  proof -
    have "j \<in> reactionJob out ` set (filter (\<lambda>r. src r = t) (reactions s))"
      using j tp by (simp add: microtasks_settlePromise)
    then obtain r where r: "r \<in> set (reactions s)" "src r = t" "j = reactionJob out r"
      by auto
    have "r \<in> set (entities ?s')" using GD(6) [OF r(1)] by (simp add: e)
    then show ?thesis unfolding r(3) using pt r(2) by (intro jobKnown_reactionJob) simp_all
  qed
qed

lemma ginv_settle_env:
  assumes G: "ginv xs s" and p: "p < length (pstates s)"
  shows "ginv xs (settlePromise p out s)"
proof (cases "pst s p = Pending")
  case False
  then show ?thesis using G by (simp add: settlePromise_not_pending)
next
  case tp: True
  show ?thesis
  proof (rule ginv_extI [OF G ext_settlePromise [OF p]])
    let ?s' = "settlePromise p out s"
    note GD = ginvD [OF G]
    have f: "derived ?s' = derived s" "adoptions ?s' = adoptions s"
      by (simp_all add: settlePromise_def)
    have e: "entities ?s' = entities s" by (simp add: entities_def f)
    have pt: "pst ?s' p = Settled out" using p tp by (simp add: pst_settlePromise)
    show "distinct (map rown (derived ?s'))" using GD(1) by (simp add: f)
    show "distinct (map fst (adoptions ?s'))" using GD(2) by (simp add: f)
    show "src R < length (pstates ?s') \<and> rown R < length (pstates ?s')"
      if "R \<in> set (entities ?s')" "R \<notin> set (entities s)" for R
      using that by (simp add: e)
    show "ephase ?s' R" if "R \<in> set (entities ?s')" "R \<notin> set (entities s)" for R
      using that by (simp add: e)
    show "ephase ?s' R" if "R \<in> set (entities s)" "rown R \<in> set xs" "rown R \<notin> set xs" for R
      using that by simp
    show "r \<in> set (entities ?s')" if "r \<in> set (reactions ?s')" "r \<notin> set (reactions s)" for r
      using that tp by (simp add: reactions_settlePromise)
    show "jobKnown ?s' j" if j: "j \<in> set (microtasks ?s')" "j \<notin> set (microtasks s)" for j
    proof -
      have "j \<in> reactionJob out ` set (filter (\<lambda>r. src r = p) (reactions s))"
        using j tp by (simp add: microtasks_settlePromise)
      then obtain r where r: "r \<in> set (reactions s)" "src r = p" "j = reactionJob out r"
        by auto
      have "r \<in> set (entities ?s')" using GD(6) [OF r(1)] by (simp add: e)
      then show ?thesis unfolding r(3) using pt r(2) by (intro jobKnown_reactionJob) simp_all
    qed
  qed
qed

text \<open>The job at the head of the queue is the only holder of its promise.\<close>

lemma own_head:
  assumes W: "wfx [] s" and m: "microtasks s = j # js"
  shows "\<And>r. r \<in> set (reactions s) \<Longrightarrow> rown r \<noteq> jown j"
    and "\<And>j'. j' \<in> set js \<Longrightarrow> jown j' \<noteq> jown j"
    and "pst s (jown j) = Pending"
    and "jown j < length (pstates s)"
proof -
  have c: "caps [] s = add_mset (jown j)
             (image_mset rown (mset (reactions s)) + image_mset jown (mset js) + mset (envOwned s))"
    using m by (simp add: caps_def tokOwners_def)
  have "count (caps [] s) (jown j) \<le> 1" using wfxD(1) [OF W] .
  then have z: "count (image_mset rown (mset (reactions s))) (jown j) = 0"
    "count (image_mset jown (mset js)) (jown j) = 0"
    unfolding c by simp_all
  show "rown r \<noteq> jown j" if "r \<in> set (reactions s)" for r
  proof
    assume a: "rown r = jown j"
    have "rown r \<in># image_mset rown (mset (reactions s))" using that by simp
    then have "jown j \<in># image_mset rown (mset (reactions s))" unfolding a .
    with z(1) show False by (meson count_eq_zero_iff)
  qed
  show "jown j' \<noteq> jown j" if "j' \<in> set js" for j'
  proof
    assume a: "jown j' = jown j"
    have "jown j' \<in># image_mset jown (mset js)" using that by simp
    then have "jown j \<in># image_mset jown (mset js)" unfolding a .
    with z(2) show False by (meson count_eq_zero_iff)
  qed
  have "jown j \<in> set (tokOwners s)" using m by (simp add: tokOwners_def)
  then show "pst s (jown j) = Pending" using wfxD(3) [OF W] by simp
  have "jown j \<in># caps [] s" unfolding c by simp
  then show "jown j < length (pstates s)" using wfxD(2) [OF W] by simp
qed

lemma ginv_dequeue:
  assumes G: "ginv [] s" and m: "microtasks s = j # js"
  shows "ginv [jown j] (s\<lparr>microtasks := js\<rparr>)"
  unfolding ginv_def
proof (intro conjI ballI impI)
  let ?s = "s\<lparr>microtasks := js\<rparr>"
  note GD = ginvD [OF G]
  have e: "entities ?s = entities s" by (simp add: entities_def)
  have p: "pst ?s = pst s" by (simp add: pst_def fun_eq_iff)
  show "distinct (map rown (derived ?s))" "distinct (map fst (adoptions ?s))"
    using GD(1,2) by simp_all
  show "src R < length (pstates ?s)" if "R \<in> set (entities ?s)" for R
    using that GD(3) by (simp add: e)
  show "rown R < length (pstates ?s)" if "R \<in> set (entities ?s)" for R
    using that GD(4) by (simp add: e)
  show "ephase ?s R" if R: "R \<in> set (entities ?s)" "rown R \<notin> set [jown j]" for R
  proof -
    have Rs: "R \<in> set (entities s)" using R(1) by (simp add: e)
    have ne: "rown R \<noteq> jown j" using R(2) by simp
    have keep: "j' \<in> set js" if "j' \<in> set (microtasks s)" "jown j' = rown R" for j'
      using that m ne by auto
    consider (t) "thenableQueued s R" | (r) "R \<in> set (reactions s)"
      | (q) out where "pst s (src R) = Settled out" "reactionJob out R \<in> set (microtasks s)"
      | (d) out where "pst s (src R) = Settled out" "jobDone s (reactionJob out R)"
      using GD(5) [OF Rs] unfolding ephase_def dphase_def by auto
    then show ?thesis
    proof cases
      case t
      then have "thenableQueued ?s R" using keep by (cases R) auto
      then show ?thesis by (simp add: ephase_def)
    next
      case r
      then show ?thesis by (simp add: ephase_def dphase_def)
    next
      case q
      then have "reactionJob out R \<in> set (microtasks ?s)" using keep by simp
      then show ?thesis using q(1) unfolding ephase_def dphase_def p by blast
    next
      case d
      then have "jobDone ?s (reactionJob out R)" by (simp add: jobDone_def p cong: option.case_cong)
      then show ?thesis using d(1) unfolding ephase_def dphase_def p by blast
    qed
  qed
  show "r \<in> set (entities ?s)" if "r \<in> set (reactions ?s)" for r
    using that GD(6) by (simp add: e)
  show "jobKnown ?s j'" if "j' \<in> set (microtasks ?s)" for j'
  proof -
    have "jobKnown s j'" using that m GD(7) by simp
    then show ?thesis by (cases j') (simp_all add: e p)
  qed
qed

lemma reactionJob_not_Thenable [simp]: "reactionJob out R \<noteq> ThenableJob t q"
  by (cases out; cases R) simp_all

lemma head_cases:
  assumes W: "wfx [] s" and G: "ginv [] s" and m: "microtasks s = j # js"
    and R: "R \<in> set (entities s)" "rown R = jown j"
  obtains (thenable) q where "j = ThenableJob (jown j) q" "R = Adopt q (jown j)"
  | (queued) out where "pst s (src R) = Settled out" "reactionJob out R = j"
  | (finished) out where "pst s (src R) = Settled out" "jobDone s (reactionJob out R)"
proof -
  note O = own_head [OF W m]
  have only: "j' = j" if "j' \<in> set (microtasks s)" "jown j' = jown j" for j'
    using that m O(2) by auto
  consider (t) "thenableQueued s R" | (r) "R \<in> set (reactions s)"
    | (q) out where "pst s (src R) = Settled out" "reactionJob out R \<in> set (microtasks s)"
    | (d) out where "pst s (src R) = Settled out" "jobDone s (reactionJob out R)"
    using ginvD(5) [OF G R(1)] unfolding ephase_def dphase_def by auto
  then show thesis
  proof cases
    case t
    then obtain q t' where Rq: "R = Adopt q t'" "ThenableJob t' q \<in> set (microtasks s)"
      by (cases R) auto
    then have "ThenableJob t' q = j" using only R(2) by simp
    then show ?thesis using thenable Rq(1) by auto
  next
    case r
    then show ?thesis using O(1) R(2) by blast
  next
    case q
    then have "reactionJob out R = j" using only R(2) by simp
    then show ?thesis using queued q(1) by blast
  next
    case d
    then show ?thesis using finished by blast
  qed
qed

lemma head_reaction:
  assumes W: "wfx [] s" and G: "ginv [] s" and m: "microtasks s = ReactionJob c v t # js"
  shows "targetReady s t (contResult c v)" and "t \<notin> fst ` set (adoptions s)"
proof -
  note O = own_head [OF W m]
  show "targetReady s t (contResult c v)"
    unfolding targetReady_def
  proof (intro ballI impI)
    fix R assume R: "R \<in> set (entities s)" "rown R = t"
    then have R2: "rown R = jown (ReactionJob c v t)" by simp
    from W G m R(1) R2 show "\<exists>out. pst s (src R) = Settled out
            \<and> (jobResult (reactionJob out R) = contResult c v \<or> jobDone s (reactionJob out R))"

    proof (cases rule: head_cases)
      case (thenable q)
      then show ?thesis by simp
    next
      case (queued out)
      then have "jobResult (reactionJob out R) = contResult c v" by simp
      then show ?thesis using queued(1) by blast
    next
      case (finished out)
      then show ?thesis by blast
    qed
  qed
  show "t \<notin> fst ` set (adoptions s)"
  proof
    assume "t \<in> fst ` set (adoptions s)"
    then obtain q where q: "(t, q) \<in> set (adoptions s)" by auto
    then have R: "Adopt q t \<in> set (entities s)" by (force simp: entities_def)
    have R2: "rown (Adopt q t) = jown (ReactionJob c v t)" by simp
    from W G m R R2 show False

    proof (cases rule: head_cases)
      case (thenable q')
      then show ?thesis by simp
    next
      case (queued out)
      then show ?thesis by simp
    next
      case (finished out)
      then have "pst s t = Settled out" by (simp add: jobDone_def)
      then show ?thesis using O(3) by simp
    qed
  qed
qed

lemma head_settle:
  assumes W: "wfx [] s" and G: "ginv [] s" and m: "microtasks s = SettleJob out t # js"
  shows "targetReady s t (Some out)"
  unfolding targetReady_def
proof (intro ballI impI)
  fix R assume R: "R \<in> set (entities s)" "rown R = t"
  then have R2: "rown R = jown (SettleJob out t)" by simp
  from W G m R(1) R2 show "\<exists>out'. pst s (src R) = Settled out'
          \<and> (jobResult (reactionJob out' R) = Some out \<or> jobDone s (reactionJob out' R))"

  proof (cases rule: head_cases)
    case (thenable q)
    then show ?thesis by simp
  next
    case (queued out')
    then have "jobResult (reactionJob out' R) = Some out" by simp
    then show ?thesis using queued(1) by blast
  next
    case (finished out')
    then show ?thesis by blast
  qed
qed

lemma head_thenable:
  assumes W: "wfx [] s" and G: "ginv [] s" and m: "microtasks s = ThenableJob t q # js"
  shows "Adopt q t \<in> set (entities s)"
    and "\<And>R. R \<in> set (entities s) \<Longrightarrow> rown R = t \<Longrightarrow>
          R = Adopt q t \<or> (\<exists>out. pst s (src R) = Settled out \<and> jobDone s (reactionJob out R))"
proof -
  show "Adopt q t \<in> set (entities s)"
    using ginvD(7) [OF G, of "ThenableJob t q"] m by simp
  fix R assume R: "R \<in> set (entities s)" "rown R = t"
  then have R2: "rown R = jown (ThenableJob t q)" by simp
  from W G m R(1) R2 show "R = Adopt q t \<or> (\<exists>out. pst s (src R) = Settled out \<and> jobDone s (reactionJob out R))"

  proof (cases rule: head_cases)
    case (thenable q')
    then show ?thesis by simp
  next
    case (queued out)
    then show ?thesis by simp
  next
    case (finished out)
    then show ?thesis by blast
  qed
qed

lemma newTargets_refl: "newTargets s s"
  by (simp add: newTargets_def)

lemma newTargets_trans: "newTargets s s' \<Longrightarrow> newTargets s' s'' \<Longrightarrow> newTargets s s''"
  unfolding newTargets_def by (meson le_trans)

lemma newTargets_same:
  "length (pstates s) \<le> length (pstates s') \<Longrightarrow> adoptions s' = adoptions s \<Longrightarrow> derived s' = derived s
   \<Longrightarrow> newTargets s s'"
  by (simp add: newTargets_def entities_def)

lemma newTargets_newPromise: "newTargets s (snd (newPromise st s))"
  by (simp add: newTargets_def entities_def newPromise_def)

lemma derived_promiseThen [simp]:
  "derived (snd (promiseThen p f r s)) = derived s @ [Derive p f r (length (pstates s))]"
  by (simp add: promiseThen_def newPromise_def performThen_def addReaction_def enqueueJob_def
        split: pstate.split)

lemma adoptions_promiseThen [simp]: "adoptions (snd (promiseThen p f r s)) = adoptions s"
  by (simp add: promiseThen_def newPromise_def performThen_def addReaction_def enqueueJob_def
        split: pstate.split)

lemma newTargets_promiseThen: "newTargets s (snd (promiseThen p f r s))"
  by (auto simp: newTargets_def entities_def)

lemma newTargets_settlePromise: "newTargets s (settlePromise p out s)"
  by (rule newTargets_same) (simp_all add: settlePromise_def)

lemma newTargets_callFn: "newTargets s (snd (callFn f s))"
  by (simp add: newTargets_def entities_def callFn_def newPromise_def)

lemma newTargets_serializeExecution: "newTargets s (snd (serializeExecution f s))"
proof -
  let ?s1 = "snd (promiseThen (executionChain s) (CallFn f) PassThrow s)"
  let ?s2 = "snd (promiseThen (length (pstates s)) RetUndefined RetUndefined ?s1)"
  have "newTargets ?s2 (snd (serializeExecution f s))"
    by (rule newTargets_same) (simp_all add: serializeExecution_def split_def Let_def)
  then show ?thesis
    using newTargets_trans [OF newTargets_promiseThen newTargets_promiseThen] newTargets_trans by blast
qed

lemma no_target:
  assumes "\<And>R. R \<in> set (entities s) \<Longrightarrow> rown R \<noteq> t"
  shows "targetReady s t res" and "t \<notin> fst ` set (adoptions s)"
proof -
  show "targetReady s t res" using assms unfolding targetReady_def by blast
  show "t \<notin> fst ` set (adoptions s)"
  proof
    assume "t \<in> fst ` set (adoptions s)"
    then obtain q where "(t, q) \<in> set (adoptions s)" by auto
    then have "Adopt q t \<in> set (entities s)" by (force simp: entities_def)
    then show False using assms by fastforce
  qed
qed

lemma newTargets_fresh:
  assumes "newTargets s s'" "\<And>R. R \<in> set (entities s) \<Longrightarrow> rown R \<noteq> t" "t < length (pstates s)"
  shows "\<And>R. R \<in> set (entities s') \<Longrightarrow> rown R \<noteq> t"
  using assms unfolding newTargets_def by fastforce

lemma Gx_newPromise_pending: "Gx xs s \<Longrightarrow> Gx (xs @ [length (pstates s)]) (snd (newPromise Pending s))"
  unfolding Gx_def using wfx_newPromise_pending ginv_newPromise by blast

lemma Gx_newPromise_settled: "Gx xs s \<Longrightarrow> Gx xs (snd (newPromise (Settled out) s))"
  unfolding Gx_def using wfx_newPromise_settled ginv_newPromise [of xs s "[]"] by simp

lemma Gx_promiseThen: "Gx xs s \<Longrightarrow> p < length (pstates s) \<Longrightarrow> Gx xs (snd (promiseThen p f r s))"
  unfolding Gx_def using wfx_promiseThen ginv_promiseThen by blast

lemma Gx_same:
  assumes "Gx xs s" "pstates s' = pstates s" "reactions s' = reactions s" "microtasks s' = microtasks s"
    "adoptions s' = adoptions s" "derived s' = derived s"
    "ops s' = ops s" "external s' = external s" "executionChain s' = executionChain s"
    "inFlightCalls s' = inFlightCalls s"
  shows "Gx xs s'"
  using assms wfx_cong [of s' s xs] ginv_same [of s' s xs] unfolding Gx_def by simp

lemma Gx_serializeExecution:
  assumes "Gx xs s"
  shows "Gx xs (snd (serializeExecution f s))"
proof -
  let ?s1 = "snd (promiseThen (executionChain s) (CallFn f) PassThrow s)"
  let ?s2 = "snd (promiseThen (length (pstates s)) RetUndefined RetUndefined ?s1)"
  have c: "executionChain s < length (pstates s)" using assms wfxD(7) unfolding Gx_def by blast
  have 1: "Gx xs ?s1" by (rule Gx_promiseThen [OF assms c])
  have 2: "Gx xs ?s2" by (rule Gx_promiseThen [OF 1]) simp
  have g: "ginv xs (snd (serializeExecution f s)) = ginv xs ?s2"
    by (rule ginv_same) (simp_all add: serializeExecution_def split_def Let_def)
  show ?thesis
    using wfx_serializeExecution [of xs s f] assms 2 g unfolding Gx_def by simp
qed

lemma fresh_target:
  assumes "ginv xs s"
  shows "\<And>R. R \<in> set (entities (snd (newPromise st s))) \<Longrightarrow> rown R \<noteq> length (pstates s)"
proof -
  fix R assume "R \<in> set (entities (snd (newPromise st s)))"
  then have "R \<in> set (entities s)" by (simp add: entities_def newPromise_def)
  then show "rown R \<noteq> length (pstates s)" using ginvD(4) [OF assms] by fastforce
qed

lemma Gx_settle_fresh:
  assumes "Gx xs s" "t \<in> set xs" "\<And>R. R \<in> set (entities s) \<Longrightarrow> rown R \<noteq> t"
  shows "Gx (remove1 t xs) (settlePromise t out s)"
proof -
  have W: "wfx xs s" and Gi: "ginv xs s" using assms(1) unfolding Gx_def by simp_all
  have t: "t < length (pstates s)" "pst s t = Pending"
    using wfx_length [OF W assms(2)] wfxD(4) [OF W assms(2)] by simp_all
  show ?thesis
    unfolding Gx_def
    using wfx_settle_held [OF W assms(2)] ginv_settle [OF Gi t no_target(1) [of s t]] assms(3)
    by blast
qed

lemma Gx_resolve_fresh:
  assumes "Gx xs s" "t \<in> set xs" "q < length (pstates s)" "\<And>R. R \<in> set (entities s) \<Longrightarrow> rown R \<noteq> t"
  shows "Gx (remove1 t xs) (resolveWith t q s)"
proof -
  have W: "wfx xs s" and Gi: "ginv xs s" using assms(1) unfolding Gx_def by simp_all
  have t: "t < length (pstates s)" using wfx_length [OF W assms(2)] .
  show ?thesis
    unfolding Gx_def
    using wfx_resolveWith [OF W assms(2,3)]
      ginv_resolveWith [OF Gi assms(3) t no_target(2) [of s t] no_target(1) [of s t]] assms(4)
    by blast
qed

lemma GxD: "Gx xs s \<Longrightarrow> wfx xs s" "Gx xs s \<Longrightarrow> ginv xs s"
  unfolding Gx_def by simp_all

lemma Gx_inFlight_update:
  assumes "Gx xs s" "p < length (pstates s)"
  shows "Gx xs (s\<lparr>inFlightCalls := (inFlightCalls s)(k \<mapsto> p)\<rparr>)"
  unfolding Gx_def
  using wfx_inFlight_update [OF GxD(1) [OF assms(1)] assms(2), of k]
    ginv_same [of "s\<lparr>inFlightCalls := (inFlightCalls s)(k \<mapsto> p)\<rparr>" s xs] GxD(2) [OF assms(1)]
  by simp

lemma Gx_inFlight_delete:
  assumes "Gx xs s"
  shows "Gx xs (s\<lparr>inFlightCalls := (inFlightCalls s)(k := None)\<rparr>)"
  unfolding Gx_def
  using wfx_inFlight_delete [OF GxD(1) [OF assms(1)], of k]
    ginv_same [of "s\<lparr>inFlightCalls := (inFlightCalls s)(k := None)\<rparr>" s xs] GxD(2) [OF assms(1)]
  by simp

lemma newTargets_handlePptx_pre:
  "newTargets (snd (newPromise Pending s))
     (snd (promiseThen (Suc (length (pstates s))) f r (snd (serializeExecution fn (snd (newPromise Pending s)))))
      \<lparr>inFlightCalls := m\<rparr>)"
proof -
  let ?s0 = "snd (newPromise Pending s)"
  let ?s2 = "snd (promiseThen (Suc (length (pstates s))) f r (snd (serializeExecution fn ?s0)))"
  have "newTargets ?s2 (?s2\<lparr>inFlightCalls := m\<rparr>)" by (rule newTargets_same) simp_all
  then show ?thesis
    using newTargets_trans [OF newTargets_serializeExecution newTargets_promiseThen] newTargets_trans
    by blast
qed

lemma Gx_handlePptxToolCall:
  assumes "Gx xs s"
  shows "Gx xs (snd (handlePptxToolCall tn a s))"
proof -
  let ?ret = "length (pstates s)"
  let ?s0 = "snd (newPromise Pending s)"
  have 0: "Gx (xs @ [?ret]) ?s0" using assms by (rule Gx_newPromise_pending)
  have rm: "remove1 ?ret (xs @ [?ret]) = xs"
    using wfx_held_fresh [OF GxD(1) [OF assms]] by (simp add: remove1_append)
  note fr = fresh_target [OF GxD(2) [OF assms], of _ Pending]
  show ?thesis
  proof (cases "handlerMapGet tn")
    case None
    then show ?thesis
      using Gx_settle_fresh [OF 0, of ?ret] fr rm
      by (simp add: handlePptxToolCall_def split_def)
  next
    case (Some t)
    show ?thesis
    proof (cases "inFlightCalls s (callKey tn a)")
      case ex: (Some existing)
      then have "existing < length (pstates s)"
        using wfxD(8) [OF GxD(1) [OF assms]] by (simp add: ranI)
      then show ?thesis
        using Gx_resolve_fresh [OF 0, of ?ret existing] fr rm Some ex
        by (simp add: handlePptxToolCall_def split_def Let_def)
    next
      case None
      let ?s1 = "snd (serializeExecution (Invoke t a) ?s0)"
      let ?r = "Suc (length (pstates s))"
      let ?s2 = "snd (promiseThen ?r (DeleteReturn (callKey tn a)) (DeleteThrow (callKey tn a)) ?s1)"
      let ?d = "Suc (Suc (Suc (length (pstates s))))"
      let ?s3 = "?s2\<lparr>inFlightCalls := (inFlightCalls ?s2)(callKey tn a \<mapsto> ?d)\<rparr>"
      have 1: "Gx (xs @ [?ret]) ?s1" using 0 by (rule Gx_serializeExecution)
      have 2: "Gx (xs @ [?ret]) ?s2" by (rule Gx_promiseThen [OF 1]) simp
      have 3: "Gx (xs @ [?ret]) ?s3" by (rule Gx_inFlight_update [OF 2]) simp
      have nt: "newTargets ?s0 ?s3" by (rule newTargets_handlePptx_pre)
      have fr3: "\<And>R. R \<in> set (entities ?s3) \<Longrightarrow> rown R \<noteq> ?ret"
        by (rule newTargets_fresh [OF nt fr]) simp_all
      have 4: "Gx (remove1 ?ret (xs @ [?ret])) (resolveWith ?ret ?d ?s3)"
        by (rule Gx_resolve_fresh [OF 3 _ _ fr3]) simp_all
      show ?thesis
        using 4 rm Some None
        by (simp add: handlePptxToolCall_def split_def Let_def)
    qed
  qed
qed

lemma newTargets_handlePptxToolCall_ge:
  "R \<in> set (entities (snd (handlePptxToolCall tn a s))) \<Longrightarrow> R \<in> set (entities s) \<or> length (pstates s) \<le> rown R"
proof -
  assume R: "R \<in> set (entities (snd (handlePptxToolCall tn a s)))"
  let ?s0 = "snd (newPromise Pending s)"
  let ?ret = "length (pstates s)"
  have e0: "entities ?s0 = entities s" by (simp add: entities_def newPromise_def)
  show ?thesis
  proof (cases "handlerMapGet tn")
    case None
    then have "entities (snd (handlePptxToolCall tn a s)) = entities s"
      by (simp add: handlePptxToolCall_def split_def Let_def entities_def settlePromise_def newPromise_def)
    then show ?thesis using R by simp
  next
    case (Some t)
    show ?thesis
    proof (cases "inFlightCalls s (callKey tn a)")
      case ex: (Some existing)
      then have "set (entities (snd (handlePptxToolCall tn a s))) = insert (Adopt existing ?ret) (set (entities s))"
        using Some
        by (auto simp: handlePptxToolCall_def split_def Let_def entities_def resolveWith_def enqueueJob_def newPromise_def)
      then show ?thesis using R by auto
    next
      case None
      let ?s2 = "snd (promiseThen (Suc ?ret) (DeleteReturn (callKey tn a)) (DeleteThrow (callKey tn a))
                   (snd (serializeExecution (Invoke t a) ?s0)))"
      let ?d = "Suc (Suc (Suc ?ret))"
      let ?s3 = "?s2\<lparr>inFlightCalls := (inFlightCalls ?s2)(callKey tn a \<mapsto> ?d)\<rparr>"
      have h: "snd (handlePptxToolCall tn a s) = resolveWith ?ret ?d ?s3"
        using Some None by (simp add: handlePptxToolCall_def split_def Let_def)
      have "set (entities (resolveWith ?ret ?d ?s3)) = insert (Adopt ?d ?ret) (set (entities ?s3))"
        by (auto simp: entities_def resolveWith_def enqueueJob_def)
      then have "R = Adopt ?d ?ret \<or> R \<in> set (entities ?s3)" using R h by auto
      then show ?thesis
      proof
        assume "R = Adopt ?d ?ret"
        then show ?thesis by simp
      next
        assume "R \<in> set (entities ?s3)"
        then have "R \<in> set (entities ?s0) \<or> length (pstates ?s0) \<le> rown R"
          using newTargets_handlePptx_pre [where s = s and f = "DeleteReturn (callKey tn a)"
              and r = "DeleteThrow (callKey tn a)" and fn = "Invoke t a"]
          unfolding newTargets_def by blast
        then show ?thesis using e0 by auto
      qed
    qed
  qed
qed

lemma ginv_unhold:
  assumes "ginv (xs @ [t]) s" "\<And>R. R \<in> set (entities s) \<Longrightarrow> rown R \<noteq> t"
  shows "ginv xs s"
  using assms unfolding ginv_def by auto

lemma Gx_external:
  assumes "Gx xs s"
  shows "Gx xs (snd (newPromise Pending s)\<lparr>external := external (snd (newPromise Pending s)) @ [length (pstates s)]\<rparr>)"
proof -
  let ?s0 = "snd (newPromise Pending s)"
  let ?s1 = "?s0\<lparr>external := external ?s0 @ [length (pstates s)]\<rparr>"
  have 0: "Gx (xs @ [length (pstates s)]) ?s0" using assms by (rule Gx_newPromise_pending)
  have w: "wfx xs ?s1" using wfx_external [OF GxD(1) [OF 0]] .
  have g0: "ginv xs ?s0"
    by (rule ginv_unhold [OF GxD(2) [OF 0]]) (rule fresh_target [OF GxD(2) [OF assms]])
  have "ginv xs ?s1 = ginv xs ?s0" by (rule ginv_same) simp_all
  then show ?thesis using w g0 unfolding Gx_def by simp
qed

lemma Gx_callOnToolCall:
  assumes "Gx xs s"
  shows "Gx xs (snd (callOnToolCall h tool a rid s))"
proof (cases h)
  case PptxBridge
  let ?ret = "length (pstates s)"
  let ?s0 = "snd (newPromise Pending s)"
  let ?s1 = "snd (handlePptxToolCall tool a ?s0)"
  have 0: "Gx (xs @ [?ret]) ?s0" using assms by (rule Gx_newPromise_pending)
  have 1: "Gx (xs @ [?ret]) ?s1" using 0 by (rule Gx_handlePptxToolCall)
  have rm: "remove1 ?ret (xs @ [?ret]) = xs"
    using wfx_held_fresh [OF GxD(1) [OF assms]] by (simp add: remove1_append)
  have l: "Suc ?ret < length (pstates ?s1)"
    using handlePptxToolCall_length_le [of ?s0 tool a] by simp
  have fr: "rown R \<noteq> ?ret" if "R \<in> set (entities ?s1)" for R
  proof -
    have "R \<in> set (entities ?s0) \<or> length (pstates ?s0) \<le> rown R"
      using newTargets_handlePptxToolCall_ge [OF that] .
    then show ?thesis using fresh_target [OF GxD(2) [OF assms], of R Pending] by auto
  qed
  have 2: "Gx (remove1 ?ret (xs @ [?ret])) (resolveWith ?ret (Suc ?ret) ?s1)"
    by (rule Gx_resolve_fresh [OF 1 _ l fr]) simp_all
  show ?thesis using 2 rm PptxBridge by (simp add: split_def Let_def)
next
  case ExternalHandler
  then show ?thesis using Gx_external [OF assms] by (simp add: split_def Let_def)
qed

lemma Gx_respond_chain:
  assumes "Gx xs s'"
    and "p0 = length (pstates s')"
    and "p1 = length (pstates (snd (callOnToolCall h tool a rid s')))"
    and "p2 = Suc p1"
  shows "Gx xs
      (snd (promiseThen p2 (FinallyThen rid) (FinallyCatch rid)
         (snd (promiseThen p1 PassValue (RespondErr rid)
            (snd (promiseThen p0 (RespondOk rid) PassThrow
                (snd (callOnToolCall h tool a rid s'))))))))"
proof -
  let ?s2 = "snd (callOnToolCall h tool a rid s')"
  have 2: "Gx xs ?s2" using assms(1) by (rule Gx_callOnToolCall)
  have l: "p0 < length (pstates ?s2)" unfolding assms(2) by (rule callOnToolCall_length)
  have 3: "Gx xs (snd (promiseThen p0 (RespondOk rid) PassThrow ?s2))"
    by (rule Gx_promiseThen [OF 2 l])
  have 4: "Gx xs (snd (promiseThen p1 PassValue (RespondErr rid)
              (snd (promiseThen p0 (RespondOk rid) PassThrow ?s2))))"
    by (rule Gx_promiseThen [OF 3]) (simp add: assms)
  show ?thesis by (rule Gx_promiseThen [OF 4]) (simp add: assms)
qed

lemma Gx_field_updates [simp]:
  "Gx xs (s\<lparr>handledRequestIds := h\<rparr>) = Gx xs s"
  "Gx xs (s\<lparr>callbackLog := c\<rparr>) = Gx xs s"
  "Gx xs (s\<lparr>isReady := b\<rparr>) = Gx xs s"
  "Gx xs (s\<lparr>readyCallbacks := rc\<rparr>) = Gx xs s"
  "Gx xs (s\<lparr>now := n\<rparr>) = Gx xs s"
  "Gx xs (s\<lparr>timers := tm\<rparr>) = Gx xs s"
  "Gx xs (s\<lparr>cachedToken := tok\<rparr>) = Gx xs s"
  "Gx xs (s\<lparr>outbox := ob\<rparr>) = Gx xs s"
  unfolding Gx_def
  using ginv_same [of "s\<lparr>handledRequestIds := h\<rparr>" s xs]
    ginv_same [of "s\<lparr>callbackLog := c\<rparr>" s xs]
    ginv_same [of "s\<lparr>isReady := b\<rparr>" s xs]
    ginv_same [of "s\<lparr>readyCallbacks := rc\<rparr>" s xs]
    ginv_same [of "s\<lparr>now := n\<rparr>" s xs]
    ginv_same [of "s\<lparr>timers := tm\<rparr>" s xs]
    ginv_same [of "s\<lparr>cachedToken := tok\<rparr>" s xs]
    ginv_same [of "s\<lparr>outbox := ob\<rparr>" s xs]
  by simp_all

lemma Gx_handleToolCall:
  assumes "Gx xs s"
  shows "Gx xs (handleToolCall cfg payload s)"
  using assms
  by (auto simp: handleToolCall_def split_def Let_def split: option.split intro!: Gx_respond_chain)

lemma Gx_postToIframe [simp]: "Gx xs (postToIframe cfg m s) = Gx xs s"
  by (cases "contentWindow cfg") (simp_all add: postToIframe_def Let_def)

lemma Gx_setAuth [simp]: "Gx xs (setAuth cfg tok s) = Gx xs s"
  by (simp add: setAuth_def)

lemma Gx_handleMessage:
  assumes "Gx xs s"
  shows "Gx xs (handleMessage cfg ev s)"
proof -
  have tr: "Gx xs (snd (promiseThen (length (pstates s)) SetAuthIfToken PassThrow
              (snd (newPromise Pending s)
               \<lparr>external := external (snd (newPromise Pending s)) @ [length (pstates s)],
                  callbackLog := cl\<rparr>)))" for cl
  proof -
    have 2: "Gx xs (snd (newPromise Pending s)\<lparr>external := external (snd (newPromise Pending s)) @ [length (pstates s)], callbackLog := cl\<rparr>)"
      using Gx_external [OF assms] by simp
    show ?thesis by (rule Gx_promiseThen [OF 2]) simp
  qed
  show ?thesis
    using assms tr
    by (simp add: handleMessage_def Let_def split_def Gx_handleToolCall)
qed

lemma ginv_thenable:
  assumes Gi: "ginv [t] s" and A: "Adopt q t \<in> set (entities s)"
    and O: "\<And>R. R \<in> set (entities s) \<Longrightarrow> rown R = t \<Longrightarrow>
              R = Adopt q t \<or> (\<exists>out. pst s (src R) = Settled out \<and> jobDone s (reactionJob out R))"
  shows "ginv [] (runJob cfg (ThenableJob t q) s)"
proof -
  note GD = ginvD [OF Gi]
  have tl: "t < length (pstates s)" using GD(4) [OF A] by simp
  have ql: "q < length (pstates s)" using GD(3) [OF A] by simp
  define s' where "s' = runJob cfg (ThenableJob t q) s"
  have E: "ext s s'" unfolding s'_def by (rule ext_runJob) (simp add: tl)
  have f: "derived s' = derived s" "adoptions s' = adoptions s" "pstates s' = pstates s"
    unfolding s'_def by (cases "pst s q"; simp add: addReaction_def enqueueJob_def)+
  have rs': "set (reactions s') \<subseteq> insert (Adopt q t) (set (reactions s))"
    unfolding s'_def by (cases "pst s q") auto
  have pend: "Adopt q t \<in> set (reactions s')" if "pst s q = Pending"
    unfolding s'_def using that by simp
  have sett: "microtasks s' = microtasks s @ [reactionJob out (Adopt q t)]" if "pst s q = Settled out" for out
    unfolding s'_def using that by simp
  have mp: "microtasks s' = microtasks s" if "pst s q = Pending"
    unfolding s'_def using that by simp
  have e: "entities s' = entities s" by (simp add: entities_def f)
  have p: "pst s' = pst s" by (rule ext) (simp add: pst_def f)
  have ph: "ephase s' (Adopt q t)"
  proof (cases "pst s q")
    case Pending
    then show ?thesis using pend by (simp add: ephase_def dphase_def)
  next
    case (Settled out)
    then have "pst s' (src (Adopt q t)) = Settled out"
      "reactionJob out (Adopt q t) \<in> set (microtasks s')"
      using sett [OF Settled] by (simp_all add: p)
    then show ?thesis unfolding ephase_def dphase_def by blast
  qed
  have "ginv [] s'"
  proof (rule ginv_extI [OF Gi E])
    show "distinct (map rown (derived s'))" "distinct (map fst (adoptions s'))"
      using GD(1,2) by (simp_all add: f)
    show "src R < length (pstates s') \<and> rown R < length (pstates s')"
      if "R \<in> set (entities s')" "R \<notin> set (entities s)" for R
      using that by (simp add: e)
    show "ephase s' R" if "R \<in> set (entities s')" "R \<notin> set (entities s)" for R
      using that by (simp add: e)
    show "ephase s' R" if R: "R \<in> set (entities s)" "rown R \<in> set [t]" "rown R \<notin> set []" for R
    proof -
      have rt: "rown R = t" using R(2) by simp
      from O [OF R(1) rt] show ?thesis
      proof
        assume "R = Adopt q t"
        then show ?thesis using ph by simp
      next
        assume "\<exists>out. pst s (src R) = Settled out \<and> jobDone s (reactionJob out R)"
        then obtain out where o: "pst s (src R) = Settled out" "jobDone s (reactionJob out R)"
          by blast
        have "jobDone s' (reactionJob out R)"
          using jobDone_ext [OF o(2) E] GD(4) [OF R(1)] by simp
        then show ?thesis using o(1) unfolding ephase_def dphase_def p by blast
      qed
    qed
    show "r \<in> set (entities s')" if r: "r \<in> set (reactions s')" "r \<notin> set (reactions s)" for r
    proof -
      have "r = Adopt q t" using r rs' by blast
      then show ?thesis using A by (simp add: e)
    qed
    show "jobKnown s' j" if j: "j \<in> set (microtasks s')" "j \<notin> set (microtasks s)" for j
    proof (cases "pst s q")
      case Pending
      then show ?thesis using j mp by simp
    next
      case (Settled out)
      then have jj: "j = reactionJob out (Adopt q t)" using j sett [OF Settled] by simp
      have "pst s' (src (Adopt q t)) = Settled out" using Settled by (simp add: p)
      then show ?thesis unfolding jj using A by (intro jobKnown_reactionJob) (simp_all add: e)
    qed
  qed
  then show ?thesis unfolding s'_def .
qed

lemma adoptions_runCont [simp]: "adoptions (snd (runCont cfg c v s)) = adoptions s"
  by (cases c)
     (simp_all add: split_def Let_def callFn_def newPromise_def respondToToolCall_def postToIframe_def
        setAuth_def scheduleCleanup_def split: option.split)

lemma newTargets_postToIframe: "newTargets s (postToIframe cfg m s)"
  by (rule newTargets_same) (simp_all add: postToIframe_def Let_def split: option.split)

lemma newTargets_runCont: "newTargets s (snd (runCont cfg c v s))"
proof (cases c)
  case (CallFn f)
  then show ?thesis using newTargets_callFn [of s f] by (simp add: split_def)
next
  case (FinallyThen rid)
  have 0: "newTargets s (scheduleCleanup rid s)"
    by (rule newTargets_same) (simp_all add: scheduleCleanup_def)
  show ?thesis
    using FinallyThen newTargets_trans [OF 0 newTargets_trans [OF newTargets_newPromise newTargets_promiseThen]]
    by (simp add: split_def Let_def)
next
  case (FinallyCatch rid)
  have 0: "newTargets s (scheduleCleanup rid s)"
    by (rule newTargets_same) (simp_all add: scheduleCleanup_def)
  show ?thesis
    using FinallyCatch newTargets_trans [OF 0 newTargets_trans [OF newTargets_newPromise newTargets_promiseThen]]
    by (simp add: split_def Let_def)
next
  case (RespondErr rid)
  then show ?thesis
    by (simp add: respondToToolCall_def newTargets_postToIframe newTargets_refl split: option.split)
next
  case SetAuthIfToken
  have "newTargets s (setAuth cfg v s)"
    by (rule newTargets_same) (simp_all add: setAuth_def postToIframe_def Let_def split: option.split)
  then show ?thesis using SetAuthIfToken by (simp add: newTargets_refl)
qed (simp_all add: newTargets_refl newTargets_same respondToToolCall_def newTargets_postToIframe)

lemma Gx_finally:
  assumes "Gx xs s"
  shows "Gx xs (snd (promiseThen (length (pstates s)) f r (snd (newPromise (Settled (Fulfilled JUndefined)) (scheduleCleanup rid s)))))"
proof -
  have 0: "Gx xs (scheduleCleanup rid s)" using assms by (simp add: scheduleCleanup_def)
  have 1: "Gx xs (snd (newPromise (Settled (Fulfilled JUndefined)) (scheduleCleanup rid s)))"
    using 0 by (rule Gx_newPromise_settled)
  show ?thesis by (rule Gx_promiseThen [OF 1]) simp
qed

lemma Gx_callFn:
  assumes "Gx xs s"
  shows "Gx xs (snd (callFn f s))"
proof -
  let ?s0 = "snd (newPromise Pending s)"
  have g0: "ginv xs ?s0" using ginv_newPromise [OF GxD(2) [OF assms], of "[]" Pending] by simp
  have "ginv xs (snd (callFn f s)) = ginv xs ?s0"
    by (rule ginv_same) (simp_all add: callFn_def newPromise_def)
  then show ?thesis using g0 wfx_callFn [OF GxD(1) [OF assms]] unfolding Gx_def by simp
qed

lemma Gx_runCont:
  assumes "Gx xs s"
  shows "Gx xs (snd (runCont cfg c v s))"
proof (cases c)
  case (CallFn f)
  then show ?thesis using Gx_callFn [OF assms, of f] by (simp add: split_def)
next
  case (DeleteReturn k)
  then show ?thesis using Gx_inFlight_delete [OF assms, of k] by simp
next
  case (DeleteThrow k)
  then show ?thesis using Gx_inFlight_delete [OF assms, of k] by simp
next
  case (RespondErr rid)
  then show ?thesis using assms by (simp add: respondToToolCall_def split: option.split)
next
  case (FinallyThen rid)
  then show ?thesis using Gx_finally [OF assms] by (simp add: split_def Let_def)
next
  case (FinallyCatch rid)
  then show ?thesis using Gx_finally [OF assms] by (simp add: split_def Let_def)
qed (use assms in \<open>simp_all add: respondToToolCall_def\<close>)

lemma runCont_completion:
  "fst (runCont cfg c v s) =
     (case contResult c v of
        Some (Fulfilled x) \<Rightarrow> Return x
      | Some (Rejected e) \<Rightarrow> Throw e
      | None \<Rightarrow> ReturnPromise (case c of CallFn f \<Rightarrow> length (pstates s) | _ \<Rightarrow> Suc (length (pstates s))))"
  by (cases c) (simp_all add: split_def Let_def split: option.split)

lemma targetReady_same:
  assumes "pstates s' = pstates s" "adoptions s' = adoptions s" "derived s' = derived s"
  shows "targetReady s' t res = targetReady s t res"
proof -
  have e: "entities s' = entities s" using assms by (simp add: entities_def)
  have p: "pst s' = pst s" using assms by (simp add: pst_def fun_eq_iff)
  have d: "jobDone s' j = jobDone s j" for j by (simp add: jobDone_def p assms cong: option.case_cong)
  show ?thesis by (simp add: targetReady_def e p d)
qed

lemma Gx_run_reaction:
  assumes W: "wfx [] s" and Gi: "ginv [] s" and m: "microtasks s = ReactionJob c v t # js"
  shows "Gx [] (runJob cfg (ReactionJob c v t) (s\<lparr>microtasks := js\<rparr>))"
proof -
  define sd where "sd = s\<lparr>microtasks := js\<rparr>"
  define s1 where "s1 = snd (runCont cfg c v sd)"
  have Wd: "wfx [t] sd" unfolding sd_def using wfx_dequeue [OF W m] by simp
  have Gd: "ginv [t] sd" unfolding sd_def using ginv_dequeue [OF Gi m] by simp
  have G1: "Gx [t] s1" unfolding s1_def using Gx_runCont [of "[t]" sd] Wd Gd unfolding Gx_def by simp
  have E: "ext sd s1" unfolding s1_def by (rule ext_runCont)
  have N: "newTargets sd s1" unfolding s1_def by (rule newTargets_runCont)
  have tl: "t < length (pstates sd)" using wfx_length [OF Wd, of t] by simp
  have Td: "targetReady sd t (contResult c v)"
    using head_reaction(1) [OF W Gi m] targetReady_same [of sd s t "contResult c v"]
    unfolding sd_def by simp
  have T1: "targetReady s1 t (contResult c v)"
  proof (rule targetReady_ext [OF Td E])
    show "src R < length (pstates sd) \<and> rown R < length (pstates sd)" if "R \<in> set (entities sd)" for R
      using ginvD(3,4) [OF Gd that] by simp
    show "rown R \<noteq> t" if "R \<in> set (entities s1)" "R \<notin> set (entities sd)" for R
      using N that tl unfolding newTargets_def by fastforce
  qed
  have na: "t \<notin> fst ` set (adoptions s1)"
    using head_reaction(2) [OF W Gi m] unfolding s1_def sd_def by simp
  have t1: "t < length (pstates s1)" "pst s1 t = Pending"
    using wfx_length [OF GxD(1) [OF G1], of t] wfxD(4) [OF GxD(1) [OF G1], of t] by simp_all
  have rj: "runJob cfg (ReactionJob c v t) sd =
        (case fst (runCont cfg c v sd) of
           Return x \<Rightarrow> settlePromise t (Fulfilled x) s1
         | ReturnPromise q \<Rightarrow> resolveWith t q s1
         | Throw e \<Rightarrow> settlePromise t (Rejected e) s1)"
    unfolding s1_def by (simp add: split_def Let_def)
  have settle: "Gx [] (settlePromise t out s1)" if "contResult c v = Some out" for out
  proof -
    have "ginv (remove1 t [t]) (settlePromise t out s1)"
      by (rule ginv_settle [OF GxD(2) [OF G1] t1]) (use T1 that in simp)
    moreover have "wfx (remove1 t [t]) (settlePromise t out s1)"
      by (rule wfx_settle_held [OF GxD(1) [OF G1]]) simp
    ultimately show ?thesis unfolding Gx_def by simp
  qed
  have "Gx [] (runJob cfg (ReactionJob c v t) sd)"
  proof (cases "contResult c v")
    case None
    define q where "q = (case c of CallFn f \<Rightarrow> length (pstates sd) | _ \<Rightarrow> Suc (length (pstates sd)))"
    have fq: "fst (runCont cfg c v sd) = ReturnPromise q"
      using None unfolding q_def by (simp add: runCont_completion)
    have ql: "q < length (pstates s1)"
      using runCont_ref [OF fq] unfolding s1_def .
    have "ginv (remove1 t [t]) (resolveWith t q s1)"
      by (rule ginv_resolveWith [OF GxD(2) [OF G1] ql t1(1) na]) (use T1 None in simp)
    moreover have "wfx (remove1 t [t]) (resolveWith t q s1)"
      by (rule wfx_resolveWith [OF GxD(1) [OF G1] _ ql]) simp
    ultimately show ?thesis unfolding rj fq Gx_def by simp
  next
    case (Some out)
    show ?thesis
    proof (cases out)
      case (Fulfilled x)
      then have "fst (runCont cfg c v sd) = Return x" using Some by (simp add: runCont_completion)
      then show ?thesis unfolding rj using settle [OF Some] Fulfilled by simp
    next
      case (Rejected e)
      then have "fst (runCont cfg c v sd) = Throw e" using Some by (simp add: runCont_completion)
      then show ?thesis unfolding rj using settle [OF Some] Rejected by simp
    qed
  qed
  then show ?thesis unfolding sd_def .
qed

lemma Gx_run_settle:
  assumes W: "wfx [] s" and Gi: "ginv [] s" and m: "microtasks s = SettleJob out t # js"
  shows "Gx [] (runJob cfg (SettleJob out t) (s\<lparr>microtasks := js\<rparr>))"
proof -
  define sd where "sd = s\<lparr>microtasks := js\<rparr>"
  have Wd: "wfx [t] sd" unfolding sd_def using wfx_dequeue [OF W m] by simp
  have Gd: "ginv [t] sd" unfolding sd_def using ginv_dequeue [OF Gi m] by simp
  have Td: "targetReady sd t (Some out)"
    using head_settle [OF W Gi m] targetReady_same [of sd s t "Some out"]
    unfolding sd_def by simp
  have t1: "t < length (pstates sd)" "pst sd t = Pending"
    using wfx_length [OF Wd, of t] wfxD(4) [OF Wd, of t] by simp_all
  have "ginv (remove1 t [t]) (settlePromise t out sd)"
    by (rule ginv_settle [OF Gd t1 Td])
  moreover have "wfx (remove1 t [t]) (settlePromise t out sd)"
    by (rule wfx_settle_held [OF Wd]) simp
  ultimately show ?thesis unfolding Gx_def sd_def by simp
qed

lemma Gx_run_thenable:
  assumes W: "wfx [] s" and Gi: "ginv [] s" and m: "microtasks s = ThenableJob t q # js"
  shows "Gx [] (runJob cfg (ThenableJob t q) (s\<lparr>microtasks := js\<rparr>))"
proof -
  define sd where "sd = s\<lparr>microtasks := js\<rparr>"
  have Wd: "wfx [t] sd" unfolding sd_def using wfx_dequeue [OF W m] by simp
  have Gd: "ginv [t] sd" unfolding sd_def using ginv_dequeue [OF Gi m] by simp
  have e: "entities sd = entities s" by (simp add: sd_def entities_def)
  have p: "pst sd = pst s" by (rule ext) (simp add: sd_def pst_def)
  have a: "adoptions sd = adoptions s" by (simp add: sd_def)
  have d: "jobDone sd j = jobDone s j" for j
    by (simp add: jobDone_def p a cong: option.case_cong)
  have A: "Adopt q t \<in> set (entities sd)" using head_thenable(1) [OF W Gi m] by (simp add: e)
  have O: "R = Adopt q t \<or> (\<exists>out. pst sd (src R) = Settled out \<and> jobDone sd (reactionJob out R))"
    if "R \<in> set (entities sd)" "rown R = t" for R
    using head_thenable(2) [OF W Gi m, of R] that by (simp add: e p d)
  have ql: "\<forall>q' \<in> set (jrefs (ThenableJob t q)). q' < length (pstates sd)"
    using wfxD(6) [OF W, of "ThenableJob t q"] m by (simp add: sd_def)
  have "ginv [] (runJob cfg (ThenableJob t q) sd)"
    by (rule ginv_thenable [OF Gd A O])
  moreover have "wfx [] (runJob cfg (ThenableJob t q) sd)"
    by (rule wfx_runJob) (use Wd ql in simp_all)
  ultimately show ?thesis unfolding Gx_def sd_def by simp
qed

lemma G_step:
  assumes "G s"
  shows "G (step cfg e s)"
proof -
  have X: "Gx [] s" using assms unfolding G_def .
  note W = GxD(1) [OF X] and Gi = GxD(2) [OF X]
  have "Gx [] (step cfg e s)"
  proof (cases e)
    case Micro
    show ?thesis
    proof (cases "microtasks s")
      case Nil
      then show ?thesis using X Micro by simp
    next
      case (Cons j js)
      show ?thesis
      proof (cases j)
        case (ReactionJob c v t)
        then show ?thesis using Gx_run_reaction [OF W Gi, of c v t js cfg] Cons Micro by simp
      next
        case (SettleJob out t)
        then show ?thesis using Gx_run_settle [OF W Gi, of out t js cfg] Cons Micro by simp
      next
        case (ThenableJob t q)
        then show ?thesis using Gx_run_thenable [OF W Gi, of t q js cfg] Cons Micro by simp
      qed
    qed
  next
    case (Settle p out)
    show ?thesis
    proof (cases "p \<in> set (envOwned s) \<and> pst s p = Pending")
      case True
      then have "p \<in># caps [] s" by (simp add: caps_def)
      then have pl: "p < length (pstates s)" using wfxD(2) [OF W] by simp
      have "ginv [] (settlePromise p out s)" by (rule ginv_settle_env [OF Gi pl])
      moreover have "wfx [] (settlePromise p out s)" using wfx_settle_env [OF W] True by simp
      ultimately show ?thesis using Settle True unfolding Gx_def by simp
    next
      case False
      then show ?thesis using Settle X by auto
    qed
  next
    case (Call tn a)
    then show ?thesis using Gx_handlePptxToolCall [OF X] by simp
  next
    case (Message ev)
    then show ?thesis using Gx_handleMessage [OF X] by simp
  next
    case (TimerFire i)
    then show ?thesis using X by (simp add: fireTimer_def)
  next
    case (ApiOnReady cb)
    then show ?thesis using X by (simp add: onReady_def)
  qed (use X in \<open>simp_all add: registerTools_def setConfig_def toggle_def newConversation_def\<close>)
  then show ?thesis unfolding G_def .
qed

lemma G_init: "G init"
proof -
  have "ginv [] init"
    by (simp add: ginv_def init_def entities_def)
  then show ?thesis using wf_init unfolding G_def Gx_def wf_def by simp
qed

lemma G_exec: "G s \<Longrightarrow> G (exec cfg es s)"
  by (induction es arbitrary: s) (simp_all add: G_step)

lemma G_run: "G (run cfg es)"
  by (simp add: run_def G_exec G_init)

section \<open>The execution chain\<close>

lemma chainInvD:
  assumes "chainInv s"
  shows "\<And>k. k < length (submitted s) \<Longrightarrow> startD s k \<in> set (derived s)"
    and "\<And>k. k < length (submitted s) \<Longrightarrow> cursorD s k \<in> set (derived s)"
    and "executionChain s = prevCursor s (length (submitted s))"
    and "\<And>k. k < length (submitted s) \<Longrightarrow> prevCursor s k < length (pstates s)"
    and "executionChain s < length (pstates s)"
    and "length (ops s) \<le> length (submitted s)"
    and "\<And>k. k < length (ops s) \<Longrightarrow> fst (ops s ! k) = fst (submitted s ! k)"
    and "\<And>k. k < length (ops s) \<Longrightarrow> (fst (snd (submitted s ! k)), snd (ops s ! k)) \<in> set (adoptions s)"
    and "\<And>k. k < length (submitted s) \<Longrightarrow> length (ops s) \<le> k \<Longrightarrow> notRun s (startD s k)"
    and "\<And>D. D \<in> set (derived s) \<Longrightarrow> callsFn D \<Longrightarrow> \<exists>k < length (submitted s). D = startD s k"
    and "0 < length (pstates s)" and "pst s 0 = Settled (Fulfilled JUndefined)"
    and "\<And>k. k < length (ops s) \<Longrightarrow> pst s (prevCursor s k) = Settled (Fulfilled JUndefined)"
  using assms unfolding chainInv_def by blast+

lemma src_startD [simp]: "src (startD s k) = prevCursor s k"
  by (simp add: startD_def split_def)

lemma rown_startD [simp]: "rown (startD s k) = fst (snd (submitted s ! k))"
  by (simp add: startD_def split_def)

lemma src_cursorD [simp]: "src (cursorD s k) = fst (snd (submitted s ! k))"
  by (simp add: cursorD_def split_def)

lemma rown_cursorD [simp]: "rown (cursorD s k) = snd (snd (submitted s ! k))"
  by (simp add: cursorD_def split_def)

lemma notRun_ext:
  assumes "notRun s D" "ext s s'" "src D < length (pstates s)"
  shows "notRun s' D"
proof -
  from assms(1) consider (a) "D \<in> set (reactions s)"
    | (b) out where "pst s (src D) = Settled out" "reactionJob out D \<in> set (microtasks s)"
    unfolding notRun_def by blast
  then show ?thesis
  proof cases
    case a
    from extD(3) [OF assms(2) a] show ?thesis unfolding notRun_def by blast
  next
    case b
    from extD(2) [OF assms(2) assms(3) b(1)] extD(4) [OF assms(2)] b(2)
    show ?thesis unfolding notRun_def by blast
  qed
qed

lemma chain_same_submitted:
  assumes "submitted s' = submitted s"
  shows "prevCursor s' k = prevCursor s k" "startD s' k = startD s k" "cursorD s' k = cursorD s k"
  using assms by (simp_all add: prevCursor_def startD_def cursorD_def)

lemma cneutral_refl: "cneutral s s"
  by (simp add: cneutral_def ext_refl)

lemma cneutral_trans: "cneutral s s' \<Longrightarrow> cneutral s' s'' \<Longrightarrow> cneutral s s''"
  unfolding cneutral_def using ext_trans by (metis (no_types, lifting))

lemma chainInv_neutral:
  assumes C: "chainInv s" and N: "cneutral s s'"
  shows "chainInv s'"
proof -
  note c = chainInvD [OF C]
  from N have E: "ext s s'" and sb: "submitted s' = submitted s" and op: "ops s' = ops s"
    and ec: "executionChain s' = executionChain s"
    and nd: "\<And>D. D \<in> set (derived s') \<Longrightarrow> D \<in> set (derived s) \<or> \<not> callsFn D"
    unfolding cneutral_def by auto
  note e = extD [OF E]
  note cs = chain_same_submitted [OF sb]
  show ?thesis unfolding chainInv_def
  proof (intro conjI allI impI ballI)
    fix k assume "k < length (submitted s')"
    then have k: "k < length (submitted s)" by (simp add: sb)
    show "startD s' k \<in> set (derived s')" using c(1) [OF k] e(6) by (auto simp: cs)
    show "cursorD s' k \<in> set (derived s')" using c(2) [OF k] e(6) by (auto simp: cs)
    show "prevCursor s' k < length (pstates s')" using c(4) [OF k] e(1) by (simp add: cs)
  next
    show "executionChain s' = prevCursor s' (length (submitted s'))" using c(3) by (simp add: cs ec sb)
    show "executionChain s' < length (pstates s')" using c(5) e(1) by (simp add: ec)
    show "length (ops s') \<le> length (submitted s')" using c(6) by (simp add: op sb)
    show "0 < length (pstates s')" using c(11) e(1) by (rule less_le_trans)
    show "pst s' 0 = Settled (Fulfilled JUndefined)" using e(2) [OF c(11) c(12)] .
  next
    fix k assume "k < length (ops s')"
    then have k: "k < length (ops s)" by (simp add: op)
    show "fst (ops s' ! k) = fst (submitted s' ! k)" using c(7) [OF k] by (simp add: op sb)
    show "(fst (snd (submitted s' ! k)), snd (ops s' ! k)) \<in> set (adoptions s')"
      using c(8) [OF k] e(5) by (auto simp: op sb)
    from k c(6) have "k < length (submitted s)" by simp
    from e(2) [OF c(4) [OF this] c(13) [OF k]]
    show "pst s' (prevCursor s' k) = Settled (Fulfilled JUndefined)" by (simp add: cs)
  next
    fix k assume "k < length (submitted s')" "length (ops s') \<le> k"
    then have k: "k < length (submitted s)" "length (ops s) \<le> k" by (simp_all add: sb op)
    have "src (startD s k) < length (pstates s)" using c(4) [OF k(1)] by simp
    from notRun_ext [OF c(9) [OF k] E this] show "notRun s' (startD s' k)" by (simp add: cs)
  next
    fix D assume D: "D \<in> set (derived s')" "callsFn D"
    with nd have "D \<in> set (derived s)" by blast
    from c(10) [OF this D(2)] show "\<exists>k<length (submitted s'). D = startD s' k" by (simp add: cs sb)
  qed
qed

lemma cneutral_same:
  assumes "pstates s' = pstates s" "reactions s' = reactions s" "microtasks s' = microtasks s"
    "adoptions s' = adoptions s" "derived s' = derived s"
    "submitted s' = submitted s" "ops s' = ops s" "executionChain s' = executionChain s"
  shows "cneutral s s'"
  unfolding cneutral_def using ext_same [of s' s] assms by simp

lemma cneutral_newPromise: "cneutral s (snd (newPromise st s))"
  unfolding cneutral_def using ext_newPromise [of s st] by (simp add: newPromise_def)

lemma cneutral_promiseThen:
  assumes "\<not> isCallFn f" "\<not> isCallFn r"
  shows "cneutral s (snd (promiseThen p f r s))"
  unfolding cneutral_def using ext_promiseThen [of s p f r] assms
  by (auto simp: promiseThen_def newPromise_def performThen_def addReaction_def enqueueJob_def
      split: pstate.split)

lemma cneutral_settlePromise:
  assumes "p < length (pstates s)"
  shows "cneutral s (settlePromise p out s)"
  unfolding cneutral_def using ext_settlePromise [OF assms, of out]
  by (simp add: settlePromise_def)

lemma cneutral_resolveWith: "cneutral s (resolveWith t q s)"
  unfolding cneutral_def using ext_resolveWith [of s t q]
  by (simp add: resolveWith_def enqueueJob_def)

lemma cneutral_postToIframe: "cneutral s (postToIframe cfg m s)"
  by (rule cneutral_same) (simp_all add: postToIframe_def Let_def split: option.split)

lemma cneutral_setAuth: "cneutral s (setAuth cfg tok s)"
  by (rule cneutral_same) (simp_all add: setAuth_def postToIframe_def Let_def split: option.split)


lemma notRun_promiseThen:
  assumes "p < length (pstates s)"
  shows "notRun (snd (promiseThen p f r s)) (Derive p f r (length (pstates s)))"
proof (cases "pst s p")
  case Pending
  show ?thesis unfolding notRun_def promiseThen_Pending [OF Pending assms] by simp
next
  case (Settled out)
  have "pst (s\<lparr>pstates := pstates s @ [Pending]\<rparr>) p = Settled out"
    using Settled assms by (simp add: pst_def nth_append)
  then show ?thesis unfolding notRun_def promiseThen_Settled [OF Settled assms]
    by (auto simp: pst_def)
qed

lemma promiseThen_chain_fields [simp]:
  "submitted (snd (promiseThen p f r s)) = submitted s"
  "ops (snd (promiseThen p f r s)) = ops s"
  "executionChain (snd (promiseThen p f r s)) = executionChain s"
  by (simp_all add: promiseThen_def newPromise_def performThen_def addReaction_def enqueueJob_def
      split: pstate.split)

lemma serializeExecution_fields:
  "submitted (snd (serializeExecution f s)) = submitted s @ [(f, length (pstates s), Suc (length (pstates s)))]"
  "executionChain (snd (serializeExecution f s)) = Suc (length (pstates s))"
  "ops (snd (serializeExecution f s)) = ops s"
  "derived (snd (serializeExecution f s)) =
     derived s @ [Derive (executionChain s) (CallFn f) PassThrow (length (pstates s)),
                  Derive (length (pstates s)) RetUndefined RetUndefined (Suc (length (pstates s)))]"
  "adoptions (snd (serializeExecution f s)) = adoptions s"
  by (simp_all add: serializeExecution_def split_def Let_def)

lemma notRun_same:
  assumes "pstates s' = pstates s" "reactions s' = reactions s" "microtasks s' = microtasks s"
  shows "notRun s' D = notRun s D"
  using assms by (simp add: notRun_def pst_def)

lemma notRun_serializeExecution:
  assumes "executionChain s < length (pstates s)"
  shows "notRun (snd (serializeExecution f s))
           (Derive (executionChain s) (CallFn f) PassThrow (length (pstates s)))"
proof -
  let ?s1 = "snd (promiseThen (executionChain s) (CallFn f) PassThrow s)"
  let ?s2 = "snd (promiseThen (length (pstates s)) RetUndefined RetUndefined ?s1)"
  let ?D = "Derive (executionChain s) (CallFn f) PassThrow (length (pstates s))"
  have 1: "notRun ?s1 ?D" by (rule notRun_promiseThen [OF assms])
  have "src ?D < length (pstates ?s1)" using assms by simp
  from notRun_ext [OF 1 ext_promiseThen this] have 2: "notRun ?s2 ?D" .
  have "notRun (snd (serializeExecution f s)) ?D = notRun ?s2 ?D"
    by (rule notRun_same) (simp_all add: serializeExecution_def split_def Let_def)
  with 2 show ?thesis by simp
qed

lemma chainInv_serializeExecution:
  assumes C: "chainInv s"
  shows "chainInv (snd (serializeExecution f s))"
proof -
  note c = chainInvD [OF C]
  define s' where "s' = snd (serializeExecution f s)"
  define n where "n = length (submitted s)"
  define n0 where "n0 = length (pstates s)"
  have sb: "submitted s' = submitted s @ [(f, n0, Suc n0)]"
    and ec: "executionChain s' = Suc n0" and op: "ops s' = ops s"
    and dv: "derived s' = derived s @ [Derive (executionChain s) (CallFn f) PassThrow n0,
                  Derive n0 RetUndefined RetUndefined (Suc n0)]"
    and ad: "adoptions s' = adoptions s"
    and ln: "length (pstates s') = Suc (Suc n0)"
    unfolding s'_def n0_def by (simp_all add: serializeExecution_fields)
  have E: "ext s s'" unfolding s'_def by (rule ext_serializeExecution)
  note e = extD [OF E]
  have pc: "prevCursor s' k = prevCursor s k" if "k \<le> n" for k
    using that unfolding prevCursor_def sb n_def by (auto simp: nth_append)
  have pcn: "prevCursor s' (Suc n) = Suc n0"
    unfolding prevCursor_def sb n_def by simp
  have sd: "startD s' k = startD s k" and cd: "cursorD s' k = cursorD s k" if "k < n" for k
    using that pc [of k] unfolding startD_def cursorD_def sb n_def by (simp_all add: nth_append)
  have sdn: "startD s' n = Derive (executionChain s) (CallFn f) PassThrow n0"
    using pc [of n] c(3) unfolding startD_def sb n_def by simp
  have cdn: "cursorD s' n = Derive n0 RetUndefined RetUndefined (Suc n0)"
    unfolding cursorD_def sb n_def by simp
  have len: "length (submitted s') = Suc n" unfolding sb n_def by simp
  have "chainInv s'" unfolding chainInv_def
  proof (intro conjI allI impI ballI)
    fix k assume "k < length (submitted s')"
    then have k: "k < n \<or> k = n" unfolding len by auto
    show "startD s' k \<in> set (derived s')"
      using k c(1) [of k] sd [of k] sdn unfolding dv n_def by auto
    show "cursorD s' k \<in> set (derived s')"
      using k c(2) [of k] cd [of k] cdn unfolding dv n_def by auto
    show "prevCursor s' k < length (pstates s')"
      using k c(4) [of k] c(5) c(3) pc [of k] unfolding ln n_def n0_def by auto
  next
    show "executionChain s' = prevCursor s' (length (submitted s'))" unfolding len pcn ec ..
    show "executionChain s' < length (pstates s')" unfolding ec ln by simp
    show "length (ops s') \<le> length (submitted s')" using c(6) unfolding op len n_def by simp
    show "0 < length (pstates s')" unfolding ln by simp
    show "pst s' 0 = Settled (Fulfilled JUndefined)" using e(2) [OF c(11) c(12)] .
  next
    fix k assume "k < length (ops s')"
    then have k: "k < length (ops s)" by (simp add: op)
    with c(6) have kn: "k < length (submitted s)" by simp
    show "fst (ops s' ! k) = fst (submitted s' ! k)" using c(7) [OF k] kn by (simp add: op sb nth_append)
    show "(fst (snd (submitted s' ! k)), snd (ops s' ! k)) \<in> set (adoptions s')"
      using c(8) [OF k] kn by (simp add: op sb ad nth_append)
    from e(2) [OF c(4) [OF kn] c(13) [OF k]] kn
    show "pst s' (prevCursor s' k) = Settled (Fulfilled JUndefined)" by (simp add: pc n_def)
  next
    fix k assume "k < length (submitted s')" "length (ops s') \<le> k"
    then have k: "k < n \<or> k = n" and mk: "length (ops s) \<le> k" unfolding len op by auto
    from k show "notRun s' (startD s' k)"
    proof
      assume kn: "k < n"
      then have k': "k < length (submitted s)" by (simp add: n_def)
      have "src (startD s k) < length (pstates s)" using c(4) [OF k'] by simp
      from notRun_ext [OF c(9) [OF k' mk] E this] show ?thesis by (simp add: sd [OF kn])
    next
      assume "k = n"
      then show ?thesis using notRun_serializeExecution [OF c(5), of f] sdn
        unfolding s'_def n0_def by simp
    qed
  next
    fix D assume D: "D \<in> set (derived s')" "callsFn D"
    then consider "D \<in> set (derived s)" | "D = Derive (executionChain s) (CallFn f) PassThrow n0"
      unfolding dv by auto
    then show "\<exists>k<length (submitted s'). D = startD s' k"
    proof cases
      case 1
      from c(10) [OF 1 D(2)] obtain k where k: "k < length (submitted s)" "D = startD s k" by blast
      then have "k < Suc n" "D = startD s' k" using sd [of k] unfolding n_def by auto
      then show ?thesis unfolding len by blast
    next
      case 2
      then have "n < Suc n" "D = startD s' n" using sdn by auto
      then show ?thesis unfolding len by blast
    qed
  qed
  then show ?thesis unfolding s'_def .
qed

lemma chainInv_newPromise: "chainInv s \<Longrightarrow> chainInv (snd (newPromise st s))"
  by (erule chainInv_neutral) (rule cneutral_newPromise)

lemma chainInv_promiseThen:
  "chainInv s \<Longrightarrow> \<not> isCallFn f \<Longrightarrow> \<not> isCallFn r \<Longrightarrow> chainInv (snd (promiseThen p f r s))"
  by (erule chainInv_neutral) (rule cneutral_promiseThen)

lemma chainInv_settlePromise:
  "chainInv s \<Longrightarrow> p < length (pstates s) \<Longrightarrow> chainInv (settlePromise p out s)"
  by (erule chainInv_neutral) (rule cneutral_settlePromise)

lemma chainInv_resolveWith: "chainInv s \<Longrightarrow> chainInv (resolveWith t q s)"
  by (erule chainInv_neutral) (rule cneutral_resolveWith)

lemma chainInv_same:
  assumes "chainInv s" "pstates s' = pstates s" "reactions s' = reactions s" "microtasks s' = microtasks s"
    "adoptions s' = adoptions s" "derived s' = derived s"
    "submitted s' = submitted s" "ops s' = ops s" "executionChain s' = executionChain s"
  shows "chainInv s'"
  using assms(1) by (rule chainInv_neutral) (rule cneutral_same [OF assms(2-)])

lemma chainInv_postToIframe: "chainInv s \<Longrightarrow> chainInv (postToIframe cfg m s)"
  by (erule chainInv_neutral) (rule cneutral_postToIframe)

lemma chainInv_setAuth: "chainInv s \<Longrightarrow> chainInv (setAuth cfg tok s)"
  by (erule chainInv_neutral) (rule cneutral_setAuth)

lemma chainInv_handlePptxToolCall:
  assumes C: "chainInv s"
  shows "chainInv (snd (handlePptxToolCall tn a s))"
proof -
  let ?s0 = "snd (newPromise Pending s)"
  have 0: "chainInv ?s0" by (rule chainInv_newPromise [OF C])
  have l0: "length (pstates ?s0) = Suc (length (pstates s))" by (simp add: newPromise_def)
  show ?thesis
  proof (cases "handlerMapGet tn")
    case None
    have "chainInv (settlePromise (length (pstates s)) (Rejected (unknownToolError tn)) ?s0)"
      by (rule chainInv_settlePromise [OF 0]) (simp add: l0)
    then show ?thesis using None by (simp add: handlePptxToolCall_def split_def Let_def newPromise_def)
  next
    case (Some t)
    show ?thesis
    proof (cases "inFlightCalls s (callKey tn a)")
      case (Some existing)
      have "chainInv (resolveWith (length (pstates s)) existing ?s0)"
        by (rule chainInv_resolveWith [OF 0])
      then show ?thesis using Some \<open>handlerMapGet tn = Some t\<close>
        by (simp add: handlePptxToolCall_def split_def Let_def newPromise_def)
    next
      case None
      let ?s1 = "snd (serializeExecution (Invoke t a) ?s0)"
      let ?s2 = "snd (promiseThen (Suc (length (pstates s))) (DeleteReturn (callKey tn a)) (DeleteThrow (callKey tn a)) ?s1)"
      let ?s3 = "?s2\<lparr>inFlightCalls := (inFlightCalls ?s2)(callKey tn a \<mapsto> Suc (Suc (Suc (length (pstates s)))))\<rparr>"
      have 1: "chainInv ?s1" by (rule chainInv_serializeExecution [OF 0])
      have 2: "chainInv ?s2" by (rule chainInv_promiseThen [OF 1]) simp_all
      have 3: "chainInv ?s3" by (rule chainInv_same [OF 2]) simp_all
      have "chainInv (resolveWith (length (pstates s)) (Suc (Suc (Suc (length (pstates s))))) ?s3)"
        by (rule chainInv_resolveWith [OF 3])
      then show ?thesis using None \<open>handlerMapGet tn = Some t\<close>
        by (simp add: handlePptxToolCall_def split_def Let_def newPromise_def)
    qed
  qed
qed


lemma chainInv_field_updates [simp]:
  "chainInv (s\<lparr>handledRequestIds := h\<rparr>) = chainInv s"
  "chainInv (s\<lparr>callbackLog := c\<rparr>) = chainInv s"
  "chainInv (s\<lparr>isReady := b\<rparr>) = chainInv s"
  "chainInv (s\<lparr>readyCallbacks := rc\<rparr>) = chainInv s"
  "chainInv (s\<lparr>now := n\<rparr>) = chainInv s"
  "chainInv (s\<lparr>timers := tm\<rparr>) = chainInv s"
  "chainInv (s\<lparr>cachedToken := tok\<rparr>) = chainInv s"
  "chainInv (s\<lparr>outbox := ob\<rparr>) = chainInv s"
  "chainInv (s\<lparr>external := ex\<rparr>) = chainInv s"
  "chainInv (s\<lparr>inFlightCalls := m\<rparr>) = chainInv s"
  by (simp_all add: chainInv_def startD_def cursorD_def prevCursor_def notRun_def pst_def)

lemma chainInv_callOnToolCall:
  assumes "chainInv s"
  shows "chainInv (snd (callOnToolCall h tool a rid s))"
proof (cases h)
  case PptxBridge
  have "chainInv (snd (handlePptxToolCall tool a (snd (newPromise Pending s))))"
    by (rule chainInv_handlePptxToolCall [OF chainInv_newPromise [OF assms]])
  from chainInv_resolveWith [OF this] show ?thesis using PptxBridge
    by (simp add: split_def Let_def)
next
  case ExternalHandler
  then show ?thesis using chainInv_newPromise [OF assms] by (simp add: split_def Let_def)
qed

lemma chainInv_handleToolCall:
  assumes "chainInv s"
  shows "chainInv (handleToolCall cfg payload s)"
  using assms unfolding handleToolCall_def
  by (auto simp: split_def Let_def split: option.splits
      intro!: chainInv_promiseThen chainInv_callOnToolCall)

lemma chainInv_handleMessage:
  assumes "chainInv s"
  shows "chainInv (handleMessage cfg ev s)"
  using assms unfolding handleMessage_def
  by (auto simp: split_def Let_def chainInv_handleToolCall chainInv_setAuth
      intro!: chainInv_promiseThen chainInv_newPromise)


lemma token_pending:
  assumes W: "wfx xs s"
  shows "\<And>r. r \<in> set (reactions s) \<Longrightarrow> pst s (rown r) = Pending"
    and "\<And>j. j \<in> set (microtasks s) \<Longrightarrow> pst s (jown j) = Pending"
proof -
  fix r assume "r \<in> set (reactions s)"
  then have "rown r \<in> set (tokOwners s)" by (auto simp: tokOwners_def)
  with wfxD(3) [OF W] show "pst s (rown r) = Pending" by blast
next
  fix j assume "j \<in> set (microtasks s)"
  then have "jown j \<in> set (tokOwners s)" by (auto simp: tokOwners_def)
  with wfxD(3) [OF W] show "pst s (jown j) = Pending" by blast
qed

lemma notRun_pending:
  assumes W: "wfx xs s" and N: "notRun s D"
  shows "pst s (rown D) = Pending"
  using N token_pending [OF W] unfolding notRun_def
  by (metis jown_reactionJob)

lemma target_state:
  assumes G: "G s" and R: "R \<in> set (entities s)"
  shows "pst s (rown R) = Pending \<or> (\<exists>out. pst s (src R) = Settled out \<and> jobDone s (reactionJob out R))"
proof -
  from G have W: "wfx [] s" and Gi: "ginv [] s" by (simp_all add: G_def Gx_def)
  note tp = token_pending [OF W]
  from ginvD(5) [OF Gi R] have "ephase s R" by simp
  then consider (a) "thenableQueued s R" | (b) "R \<in> set (reactions s)"
    | (c) out where "pst s (src R) = Settled out" "reactionJob out R \<in> set (microtasks s)"
    | (d) out where "pst s (src R) = Settled out" "jobDone s (reactionJob out R)"
    unfolding ephase_def dphase_def by blast
  then show ?thesis
  proof cases
    case a
    then obtain q t where "R = Adopt q t" "ThenableJob t q \<in> set (microtasks s)"
      by (cases R) auto
    with tp(2) [of "ThenableJob t q"] show ?thesis by simp
  next
    case b
    with tp(1) show ?thesis by blast
  next
    case c
    with tp(2) [of "reactionJob out R"] show ?thesis by simp
  next
    case d
    then show ?thesis by blast
  qed
qed

lemma jobDone_cursor [simp]:
  "jobDone s (reactionJob out (Derive p RetUndefined RetUndefined t)) = (pst s t = Settled (Fulfilled JUndefined))"
  by (cases out) (simp_all add: jobDone_def)

lemma cursor_state:
  assumes C: "chainInv s" and G: "G s" and k: "k \<le> length (submitted s)"
  shows "pst s (prevCursor s k) = Pending \<or> pst s (prevCursor s k) = Settled (Fulfilled JUndefined)"
proof (cases k)
  case 0
  then show ?thesis using chainInvD(12) [OF C] by (simp add: prevCursor_def)
next
  case (Suc i)
  with k have i: "i < length (submitted s)" by simp
  have pc: "prevCursor s k = rown (cursorD s i)" using Suc by (simp add: prevCursor_def)
  have "cursorD s i \<in> set (entities s)" using chainInvD(2) [OF C i] by (simp add: entities_def)
  from target_state [OF G this] show ?thesis unfolding pc
    by (auto simp: cursorD_def split_def)
qed


text \<open>A unit that has not begun: its promise and the cursor behind it are pending.\<close>

lemma unbegun_pending:
  assumes C: "chainInv s" and G: "G s" and k: "k < length (submitted s)" "length (ops s) \<le> k"
  shows "pst s (fst (snd (submitted s ! k))) = Pending"
    and "pst s (snd (snd (submitted s ! k))) = Pending"
    and "pst s (prevCursor s (Suc k)) = Pending"
proof -
  from G have W: "wfx [] s" by (simp add: G_def Gx_def)
  from notRun_pending [OF W chainInvD(9) [OF C k]]
  show 1: "pst s (fst (snd (submitted s ! k))) = Pending" by simp
  have "cursorD s k \<in> set (entities s)" using chainInvD(2) [OF C k(1)] by (simp add: entities_def)
  from target_state [OF G this] 1
  show 2: "pst s (snd (snd (submitted s ! k))) = Pending" by simp
  then show "pst s (prevCursor s (Suc k)) = Pending" by (simp add: prevCursor_def)
qed

lemma waiting:
  assumes C: "chainInv s" and G: "G s" and k: "k < length (submitted s)" "length (ops s) < k"
  shows "startD s k \<in> set (reactions s)"
proof -
  from k obtain i where i: "k = Suc i" "i < length (submitted s)" "length (ops s) \<le> i"
    by (cases k) auto
  from unbegun_pending(3) [OF C G i(2,3)] have "pst s (prevCursor s k) = Pending" by (simp add: i(1))
  moreover have "notRun s (startD s k)" using chainInvD(9) [OF C k(1)] k(2) by simp
  ultimately show ?thesis by (simp add: notRun_def)
qed

lemma start_job:
  assumes "reactionJob out (startD s k) = ReactionJob c v t"
  shows "t = fst (snd (submitted s ! k))"
    and "isCallFn c \<Longrightarrow> c = CallFn (fst (submitted s ! k)) \<and> out = Fulfilled v"
    and "\<not> isCallFn c \<Longrightarrow> out = Rejected v"
proof -
  obtain f r c' where sk: "submitted s ! k = (f, r, c')" by (cases "submitted s ! k")
  from assms show "t = fst (snd (submitted s ! k))" by (cases out) (simp_all add: startD_def sk)
  from assms show "isCallFn c \<Longrightarrow> c = CallFn (fst (submitted s ! k)) \<and> out = Fulfilled v"
    by (cases out) (auto simp: startD_def sk)
  from assms show "\<not> isCallFn c \<Longrightarrow> out = Rejected v"
    by (cases out) (auto simp: startD_def sk)
qed

lemma chainInv_dequeue:
  assumes C: "chainInv s" and G: "G s" and m: "microtasks s = j # js" and j: "\<not> isStart j"
  shows "chainInv (s\<lparr>microtasks := js\<rparr>)"
proof -
  note c = chainInvD [OF C]
  let ?s = "s\<lparr>microtasks := js\<rparr>"
  have cs: "prevCursor ?s k = prevCursor s k" "startD ?s k = startD s k" "cursorD ?s k = cursorD s k" for k
    by (simp_all add: prevCursor_def startD_def cursorD_def)
  have nr: "notRun ?s (startD s k)" if k: "k < length (submitted s)" "length (ops s) \<le> k" for k
  proof (cases "length (ops s) < k")
    case True
    from waiting [OF C G k(1) True] show ?thesis by (simp add: notRun_def)
  next
    case False
    from c(9) [OF k] consider (a) "startD s k \<in> set (reactions s)"
      | (b) out where "pst s (prevCursor s k) = Settled out" "reactionJob out (startD s k) \<in> set (j # js)"
      unfolding notRun_def m by auto
    then show ?thesis
    proof cases
      case a
      then show ?thesis by (simp add: notRun_def)
    next
      case b
      from cursor_state [OF C G, of k] k(1) b(1) have out: "out = Fulfilled JUndefined" by simp
      have "reactionJob out (startD s k) \<noteq> j"
        using j unfolding out by (auto simp: startD_def split_def)
      with b show ?thesis by (auto simp: notRun_def pst_def)
    qed
  qed
  show ?thesis unfolding chainInv_def cs
    using c(1-8) c(10-13) nr by (simp add: pst_def)
qed

lemma cneutral_enqueueJob: "cneutral s (enqueueJob j s)"
  unfolding cneutral_def using ext_enqueueJob [of s j] by (simp add: enqueueJob_def)

lemma cneutral_addReaction: "cneutral s (addReaction r s)"
  unfolding cneutral_def using ext_addReaction [of s r] by (simp add: addReaction_def)

lemma cneutral_finally:
  assumes "\<not> isCallFn f" "\<not> isCallFn r"
  shows "cneutral s (snd (promiseThen p f r (snd (newPromise st (scheduleCleanup rid s)))))"
proof -
  have "cneutral s (scheduleCleanup rid s)" by (rule cneutral_same) (simp_all add: scheduleCleanup_def)
  from cneutral_trans [OF this cneutral_newPromise]
  have "cneutral s (snd (newPromise st (scheduleCleanup rid s)))" .
  from cneutral_trans [OF this cneutral_promiseThen [OF assms]] show ?thesis .
qed

lemma cneutral_runCont:
  assumes "\<not> isCallFn c"
  shows "cneutral s (snd (runCont cfg c v s))"
proof (cases c)
  case (CallFn f)
  with assms show ?thesis by simp
next
  case (DeleteReturn k)
  then show ?thesis by (simp add: cneutral_same)
next
  case (DeleteThrow k)
  then show ?thesis by (simp add: cneutral_same)
next
  case (RespondOk rid)
  then show ?thesis by (simp add: respondToToolCall_def cneutral_postToIframe)
next
  case (RespondErr rid)
  then show ?thesis by (simp add: respondToToolCall_def cneutral_postToIframe cneutral_refl split: option.split)
next
  case (FinallyThen rid)
  then show ?thesis using cneutral_finally [of "ValueThunk v" PassThrow s]
    by (simp add: split_def Let_def)
next
  case (FinallyCatch rid)
  then show ?thesis using cneutral_finally [of "Thrower v" PassThrow s]
    by (simp add: split_def Let_def)
next
  case SetAuthIfToken
  then show ?thesis by (simp add: cneutral_setAuth cneutral_refl)
qed (simp_all add: cneutral_refl)

lemma cneutral_runJob:
  assumes t: "jown j < length (pstates s)" and j: "\<not> isStart j"
  shows "cneutral s (runJob cfg j s)"
proof (cases j)
  case (ReactionJob c v t)
  with j have c: "\<not> isCallFn c" by simp
  define s1 where "s1 = snd (runCont cfg c v s)"
  have 1: "cneutral s s1" unfolding s1_def by (rule cneutral_runCont [OF c])
  have t1: "t < length (pstates s1)" using t runCont_length [of s cfg c v] ReactionJob
    unfolding s1_def by simp
  have "cneutral s1 (case fst (runCont cfg c v s) of
        Return x \<Rightarrow> settlePromise t (Fulfilled x) s1
      | ReturnPromise q \<Rightarrow> resolveWith t q s1
      | Throw e \<Rightarrow> settlePromise t (Rejected e) s1)"
    using t1 by (simp add: cneutral_settlePromise cneutral_resolveWith split: completion.split)
  from cneutral_trans [OF 1 this] show ?thesis unfolding s1_def using ReactionJob
    by (simp add: split_def Let_def)
next
  case (SettleJob out t)
  then show ?thesis using t by (simp add: cneutral_settlePromise)
next
  case (ThenableJob t q)
  then show ?thesis by (simp add: cneutral_addReaction cneutral_enqueueJob split: pstate.split)
qed


text \<open>
  The job at the head of the queue calls a unit: it is the first unit not begun yet,
  and the cursor before it is fulfilled.
\<close>

lemma start_head:
  assumes C: "chainInv s" and G: "G s" and m: "microtasks s = ReactionJob (CallFn f) v t # js"
  shows "length (ops s) < length (submitted s)"
    and "fst (submitted s ! length (ops s)) = f"
    and "fst (snd (submitted s ! length (ops s))) = t"
    and "pst s (prevCursor s (length (ops s))) = Settled (Fulfilled JUndefined)"
proof -
  note c = chainInvD [OF C]
  from G have W: "wfx [] s" and Gi: "ginv [] s" by (simp_all add: G_def Gx_def)
  have "jobKnown s (ReactionJob (CallFn f) v t)" using ginvD(7) [OF Gi, of "ReactionJob (CallFn f) v t"] m by simp
  then obtain R out where R: "R \<in> set (entities s)" "pst s (src R) = Settled out"
    "reactionJob out R = ReactionJob (CallFn f) v t" by auto
  from R(3) obtain p f' r' t' where Rd: "R = Derive p f' r' t'" by (cases R) auto
  with R(1) have Rin: "R \<in> set (derived s)" by (auto simp: entities_def)
  have "callsFn R" using R(3) unfolding Rd by (cases out) auto
  from c(10) [OF Rin this] obtain k where k: "k < length (submitted s)" "R = startD s k" by blast
  note sj = start_job [OF R(3) [unfolded k(2)]]
  from sj(2) have fk: "f = fst (submitted s ! k)" and out: "out = Fulfilled v" by simp_all
  from R(2) have ps: "pst s (prevCursor s k) = Settled out" by (simp add: k(2))
  have "\<not> k < length (ops s)"
  proof
    assume "k < length (ops s)"
    from c(8) [OF this] have "fst (fst (snd (submitted s ! k)), snd (ops s ! k)) \<in> fst ` set (adoptions s)"
      by (rule imageI)
    then have "t \<in> fst ` set (adoptions s)" unfolding sj(1) by simp
    with head_reaction(2) [OF W Gi m] show False by simp
  qed
  moreover have "\<not> length (ops s) < k"
  proof
    assume a: "length (ops s) < k"
    then obtain i where i: "k = Suc i" "i < length (submitted s)" "length (ops s) \<le> i"
      using k(1) by (cases k) auto
    from unbegun_pending(3) [OF C G i(2,3)] ps show False by (simp add: i(1))
  qed
  ultimately have km: "k = length (ops s)" by simp
  show "length (ops s) < length (submitted s)" using k(1) km by simp
  show "fst (submitted s ! length (ops s)) = f" using fk km by simp
  show "fst (snd (submitted s ! length (ops s))) = t" using sj(1) km by simp
  from cursor_state [OF C G, of k] k(1) ps
  show "pst s (prevCursor s (length (ops s))) = Settled (Fulfilled JUndefined)" by (simp add: km)
qed

lemma runJob_start:
  "runJob cfg (ReactionJob (CallFn f) v t) s =
     s\<lparr>pstates := pstates s @ [Pending], ops := ops s @ [(f, length (pstates s))],
       adoptions := adoptions s @ [(t, length (pstates s))],
       microtasks := microtasks s @ [ThenableJob t (length (pstates s))]\<rparr>"
  by (simp add: callFn_def newPromise_def resolveWith_def enqueueJob_def split_def Let_def)

lemma chainInv_start:
  assumes C: "chainInv s" and G: "G s" and m: "microtasks s = ReactionJob (CallFn f) v t # js"
  shows "chainInv (runJob cfg (ReactionJob (CallFn f) v t) (s\<lparr>microtasks := js\<rparr>))"
proof -
  note c = chainInvD [OF C]
  note h = start_head [OF C G m]
  define s' where "s' = runJob cfg (ReactionJob (CallFn f) v t) (s\<lparr>microtasks := js\<rparr>)"
  have f: "pstates s' = pstates s @ [Pending]" "reactions s' = reactions s"
    "adoptions s' = adoptions s @ [(t, length (pstates s))]" "derived s' = derived s"
    "ops s' = ops s @ [(f, length (pstates s))]" "submitted s' = submitted s"
    "executionChain s' = executionChain s"
    unfolding s'_def runJob_start by simp_all
  have cs: "prevCursor s' k = prevCursor s k" "startD s' k = startD s k" "cursorD s' k = cursorD s k" for k
    by (simp_all add: prevCursor_def startD_def cursorD_def f)
  have "chainInv s'" unfolding chainInv_def cs
  proof (intro conjI allI impI ballI)
    fix k assume "k < length (submitted s')"
    then have k: "k < length (submitted s)" by (simp add: f)
    show "startD s k \<in> set (derived s')" using c(1) [OF k] by (simp add: f)
    show "cursorD s k \<in> set (derived s')" using c(2) [OF k] by (simp add: f)
    show "prevCursor s k < length (pstates s')" using c(4) [OF k] by (simp add: f)
  next
    show "executionChain s' = prevCursor s (length (submitted s'))" using c(3) by (simp add: f)
    show "executionChain s' < length (pstates s')" using c(5) by (simp add: f)
    show "length (ops s') \<le> length (submitted s')" using h(1) by (simp add: f)
    show "0 < length (pstates s')" by (simp add: f)
    show "pst s' 0 = Settled (Fulfilled JUndefined)" using c(11) c(12) by (simp add: pst_def f nth_append)
  next
    fix k assume "k < length (ops s')"
    then have k: "k < length (ops s) \<or> k = length (ops s)" by (auto simp: f)
    show "fst (ops s' ! k) = fst (submitted s' ! k)"
      using k c(7) [of k] h(2) by (auto simp: f nth_append)
    show "(fst (snd (submitted s' ! k)), snd (ops s' ! k)) \<in> set (adoptions s')"
      using k c(8) [of k] h(3) by (auto simp: f nth_append)
    have "k < length (submitted s)" using k h(1) by auto
    from c(4) [OF this] k c(13) [of k] h(4)
    show "pst s' (prevCursor s k) = Settled (Fulfilled JUndefined)"
      by (auto simp: pst_def f nth_append)
  next
    fix k assume "k < length (submitted s')" "length (ops s') \<le> k"
    then have k: "k < length (submitted s)" "length (ops s) < k" by (simp_all add: f)
    from waiting [OF C G k] show "notRun s' (startD s k)" by (simp add: notRun_def f)
  next
    fix D assume D: "D \<in> set (derived s')" "callsFn D"
    then show "\<exists>k<length (submitted s'). D = startD s k" using c(10) [of D] by (simp add: f)
  qed
  then show ?thesis unfolding s'_def .
qed

lemma chainInv_step:
  assumes C: "chainInv s" and G: "G s"
  shows "chainInv (step cfg e s)"
proof (cases e)
  case Micro
  show ?thesis
  proof (cases "microtasks s")
    case Nil
    then show ?thesis using C Micro by simp
  next
    case (Cons j js)
    from G have W: "wfx [] s" by (simp add: G_def Gx_def)
    show ?thesis
    proof (cases "isStart j")
      case True
      then obtain f v t where j: "j = ReactionJob (CallFn f) v t"
        by (cases j; simp) (metis isCallFn.elims(2))
      from chainInv_start [OF C G Cons [unfolded j]] show ?thesis using Micro Cons j by simp
    next
      case False
      have 1: "chainInv (s\<lparr>microtasks := js\<rparr>)" by (rule chainInv_dequeue [OF C G Cons False])
      have "jown j < length (pstates (s\<lparr>microtasks := js\<rparr>))" using own_head(4) [OF W Cons] by simp
      from chainInv_neutral [OF 1 cneutral_runJob [OF this False]] show ?thesis
        using Micro Cons by simp
    qed
  qed
next
  case (Settle p out)
  have "p \<in> set (envOwned s) \<Longrightarrow> p < length (pstates s)"
  proof -
    assume "p \<in> set (envOwned s)"
    then have "p \<in># caps [] s" by (simp add: caps_def)
    with G show ?thesis using wfxD(2) [of "[]" s p] by (simp add: G_def Gx_def)
  qed
  then show ?thesis using C Settle by (simp add: chainInv_settlePromise)
next
  case (Call tn a)
  then show ?thesis using chainInv_handlePptxToolCall [OF C] by simp
next
  case (Message ev)
  then show ?thesis using chainInv_handleMessage [OF C] by simp
next
  case (Tick d)
  then show ?thesis using C by simp
next
  case (TimerFire i)
  then show ?thesis using C by (simp add: fireTimer_def)
next
  case (ApiOnReady cb)
  then show ?thesis using C by (simp add: onReady_def)
next
  case (ApiSetAuth tok)
  then show ?thesis using C by (simp add: chainInv_setAuth)
next
  case (ApiRegisterTools tools)
  then show ?thesis using C by (simp add: registerTools_def chainInv_postToIframe)
next
  case (ApiSetConfig cc)
  then show ?thesis using C by (simp add: setConfig_def chainInv_postToIframe)
next
  case (ApiToggle b)
  then show ?thesis using C by (simp add: toggle_def chainInv_postToIframe)
next
  case ApiNewConversation
  then show ?thesis using C by (simp add: newConversation_def chainInv_postToIframe)
qed

lemma chainInv_init: "chainInv init"
  by (simp add: chainInv_def init_def prevCursor_def pst_def)

lemma chainInv_exec: "chainInv s \<Longrightarrow> G s \<Longrightarrow> chainInv (exec cfg es s)"
proof (induction es arbitrary: s)
  case Nil
  then show ?case by simp
next
  case (Cons e es)
  from Cons.IH [OF chainInv_step [OF Cons.prems] G_step [OF Cons.prems(2)]] show ?case by simp
qed

lemma chainInv_run: "chainInv (run cfg es)"
  unfolding run_def by (rule chainInv_exec [OF chainInv_init G_init])


subsection \<open>What the chain invariant says about the units\<close>

lemma adoption_entity:
  "(t, q) \<in> set (adoptions s) \<Longrightarrow> Adopt q t \<in> set (entities s)"
  by (force simp: entities_def)

lemma adopted_outcome:
  assumes G: "G s" and a: "(t, q) \<in> set (adoptions s)" and t: "pst s t = Settled res"
  shows "pst s q = Settled res"
proof -
  from target_state [OF G adoption_entity [OF a]] t
  obtain out where "pst s q = Settled out" "jobDone s (SettleJob out t)" by auto
  with t show ?thesis by (simp add: jobDone_def)
qed

lemma derived_entity: "D \<in> set (derived s) \<Longrightarrow> D \<in> set (entities s)"
  by (simp add: entities_def)

lemma jobDone_cursorD [simp]:
  "jobDone s (reactionJob out (cursorD s k)) = (pst s (snd (snd (submitted s ! k))) = Settled (Fulfilled JUndefined))"
  by (simp add: cursorD_def split_def)

lemma unit_settled:
  assumes C: "chainInv s" and G: "G s" and k: "k < length (submitted s)"
    and p: "pst s (snd (snd (submitted s ! k))) = Settled out"
  shows "k < length (ops s)"
    and "\<exists>res. pst s (snd (ops s ! k)) = Settled res \<and> pst s (fst (snd (submitted s ! k))) = Settled res"
    and "out = Fulfilled JUndefined"
proof -
  note c = chainInvD [OF C]
  show m: "k < length (ops s)"
  proof (rule ccontr)
    assume "\<not> k < length (ops s)"
    then have "length (ops s) \<le> k" by simp
    from unbegun_pending(2) [OF C G k this] p show False by simp
  qed
  from target_state [OF G derived_entity [OF c(2) [OF k]]] p
  obtain o1 where o1: "pst s (fst (snd (submitted s ! k))) = Settled o1"
    "pst s (snd (snd (submitted s ! k))) = Settled (Fulfilled JUndefined)" by auto
  from o1(2) p show "out = Fulfilled JUndefined" by simp
  from adopted_outcome [OF G c(8) [OF m] o1(1)] o1(1)
  show "\<exists>res. pst s (snd (ops s ! k)) = Settled res \<and> pst s (fst (snd (submitted s ! k))) = Settled res"
    by blast
qed

lemma prev_settled:
  assumes C: "chainInv s" and G: "G s" and k: "Suc k < length (ops s)"
  shows "\<exists>res. pst s (snd (ops s ! k)) = Settled res \<and> pst s (fst (snd (submitted s ! k))) = Settled res"
    and "pst s (snd (snd (submitted s ! k))) = Settled (Fulfilled JUndefined)"
proof -
  note c = chainInvD [OF C]
  from c(13) [OF k] show 1: "pst s (snd (snd (submitted s ! k))) = Settled (Fulfilled JUndefined)"
    by (simp add: prevCursor_def)
  from k c(6) have "k < length (submitted s)" by simp
  from unit_settled(2) [OF C G this 1]
  show "\<exists>res. pst s (snd (ops s ! k)) = Settled res \<and> pst s (fst (snd (submitted s ! k))) = Settled res" .
qed

lemma filter_last_only:
  assumes "\<And>k. Suc k < length xs \<Longrightarrow> \<not> P (xs ! k)"
  shows "length (filter P xs) \<le> 1"
proof (cases xs rule: rev_cases)
  case Nil
  then show ?thesis by simp
next
  case (snoc ys y)
  have "\<not> P x" if "x \<in> set ys" for x
  proof -
    from that obtain i where i: "i < length ys" "ys ! i = x" by (auto simp: in_set_conv_nth)
    with assms [of i] snoc show ?thesis by (simp add: nth_append)
  qed
  then have "filter P ys = []" by (simp add: filter_empty_conv)
  then show ?thesis using snoc by simp
qed

lemma quiescent_unit:
  assumes C: "chainInv s" and G: "G s" and q: "microtasks s = []"
    and k: "k < length (ops s)" and h: "pst s (snd (ops s ! k)) = Settled res"
  shows "pst s (fst (snd (submitted s ! k))) = Settled res"
    and "pst s (snd (snd (submitted s ! k))) = Settled (Fulfilled JUndefined)"
    and "Suc k < length (submitted s) \<Longrightarrow> Suc k < length (ops s)"
proof -
  note c = chainInvD [OF C]
  from G have W: "wfx [] s" and Gi: "ginv [] s" by (simp_all add: G_def Gx_def)
  from k c(6) have kn: "k < length (submitted s)" by simp
  let ?A = "Adopt (snd (ops s ! k)) (fst (snd (submitted s ! k)))"
  have "ephase s ?A" using ginvD(5) [OF Gi adoption_entity [OF c(8) [OF k]]] by simp
  moreover have "?A \<notin> set (reactions s)" using wfxD(5) [OF W, of ?A] h by auto
  ultimately show 1: "pst s (fst (snd (submitted s ! k))) = Settled res"
    using h q by (auto simp: ephase_def dphase_def jobDone_def)
  have "ephase s (cursorD s k)" using ginvD(5) [OF Gi derived_entity [OF c(2) [OF kn]]] by simp
  moreover have "cursorD s k \<notin> set (reactions s)" using wfxD(5) [OF W, of "cursorD s k"] 1 by auto
  ultimately show 2: "pst s (snd (snd (submitted s ! k))) = Settled (Fulfilled JUndefined)"
    using q by (auto simp: ephase_def dphase_def cursorD_def split_def)
  show "Suc k < length (ops s)" if n: "Suc k < length (submitted s)"
  proof (rule ccontr)
    assume "\<not> Suc k < length (ops s)"
    then have "length (ops s) \<le> Suc k" by simp
    from unbegun_pending(1) [OF C G n this] c(9) [OF n this]
    have "notRun s (startD s (Suc k))" by simp
    moreover have "startD s (Suc k) \<notin> set (reactions s)"
      using wfxD(5) [OF W, of "startD s (Suc k)"] 2 by (auto simp: prevCursor_def)
    ultimately show False using q by (simp add: notRun_def)
  qed
qed


subsection \<open>Which steps start a unit\<close>

lemma ops_handlePptxToolCall [simp]: "ops (snd (handlePptxToolCall tn a s)) = ops s"
  by (simp add: handlePptxToolCall_def split_def Let_def newPromise_def settlePromise_def
      resolveWith_def enqueueJob_def serializeExecution_fields split: option.split)

lemma ops_callOnToolCall [simp]: "ops (snd (callOnToolCall h tool a rid s)) = ops s"
  by (cases h) (simp_all add: split_def Let_def newPromise_def resolveWith_def enqueueJob_def)

lemma ops_handleToolCall [simp]: "ops (handleToolCall cfg payload s) = ops s"
  by (simp add: handleToolCall_def split_def Let_def split: option.split)

lemma ops_postToIframe [simp]: "ops (postToIframe cfg m s) = ops s"
  by (simp add: postToIframe_def Let_def split: option.split)

lemma ops_handleMessage [simp]: "ops (handleMessage cfg ev s) = ops s"
  by (simp add: handleMessage_def split_def Let_def setAuth_def newPromise_def)

lemma ops_step:
  assumes G: "G s"
  shows "ops (step cfg e s) = ops s
       \<or> (\<exists>f v t js. e = Micro \<and> microtasks s = ReactionJob (CallFn f) v t # js
            \<and> ops (step cfg e s) = ops s @ [(f, length (pstates s))])"
proof (cases e)
  case Micro
  show ?thesis
  proof (cases "microtasks s")
    case Nil
    then show ?thesis using Micro by simp
  next
    case (Cons j js)
    from G have W: "wfx [] s" by (simp add: G_def Gx_def)
    show ?thesis
    proof (cases "isStart j")
      case True
      then obtain f v t where j: "j = ReactionJob (CallFn f) v t"
        by (cases j; simp) (metis isCallFn.elims(2))
      have "ops (step cfg e s) = ops s @ [(f, length (pstates s))]"
        using Micro Cons unfolding j by (simp add: runJob_start del: runJob.simps)
      then show ?thesis using Micro Cons j by blast
    next
      case False
      have "jown j < length (pstates (s\<lparr>microtasks := js\<rparr>))" using own_head(4) [OF W Cons] by simp
      from cneutral_runJob [OF this False, of cfg] show ?thesis using Micro Cons
        by (simp add: cneutral_def)
    qed
  qed
next
  case (Settle p out)
  then show ?thesis by (simp add: settlePromise_def)
next
  case (TimerFire i)
  then show ?thesis by (simp add: fireTimer_def)
next
  case (ApiOnReady cb)
  then show ?thesis by (simp add: onReady_def)
qed (simp_all add: setAuth_def registerTools_def setConfig_def toggle_def newConversation_def)

lemma settled_step:
  assumes G: "G s" and p: "p < length (pstates s)" "pst s p = Settled res"
  shows "pst (step cfg e s) p = Settled res"
proof -
  from G have W: "wf s" by (simp add: G_def Gx_def wf_def)
  show ?thesis
  proof (cases "\<exists>j js. e = Micro \<and> microtasks s = j # js")
    case True
    then obtain j js where m: "e = Micro" "microtasks s = j # js" by blast
    from ext_step [OF W, where e = e and cfg = cfg] m have "ext (s\<lparr>microtasks := js\<rparr>) (step cfg e s)" by simp
    from extD(2) [OF this, of p res] p show ?thesis by (simp add: pst_def)
  next
    case False
    have "ext s (step cfg e s)"
    proof (cases "microtasks s")
      case Nil
      then show ?thesis using ext_step [OF W, where e = e and cfg = cfg] by (simp split: event.splits)
    next
      case (Cons j js)
      with False have "e \<noteq> Micro" by simp
      then show ?thesis using ext_step [OF W, where e = e and cfg = cfg] Cons by (cases e) simp_all
    qed
    from extD(2) [OF this p] show ?thesis .
  qed
qed

section \<open>The claims\<close>

subsection \<open>C9: messages that fail validation change nothing\<close>

text \<open>
  C9. For every incoming message event whose origin differs from the configured
  \<open>iframeOrigin\<close> (when that origin is not \<open>*\<close>), or whose source is not the
  iframe's \<open>contentWindow\<close>, or whose data is not an object with a \<open>type\<close>
  field, \<open>handleMessage\<close> returns the state it was given, whatever that state is:
  nothing is posted to the iframe (\<open>outbox\<close>), no request id is recorded
  (\<open>handledRequestIds\<close>), no callback is invoked (\<open>callbackLog\<close>), no promise,
  reaction, job or timer is created.
\<close>

theorem handleMessage_invalid_unchanged:
  assumes "(iframeOrigin cfg \<noteq> ''*'' \<and> evOrigin ev \<noteq> iframeOrigin cfg)
         \<or> evSource ev \<noteq> contentWindow cfg
         \<or> \<not> isObjectWithType (evData ev)"
  shows "handleMessage cfg ev s = s"
proof -
  have "\<not> truthy (getPropOpt d ''type'')" if "\<not> isObjectWithType d" for d
  proof (cases d)
    case (JObj kvs)
    then have "map_of kvs ''type'' = None"
      using that by (simp add: map_of_eq_None_iff)
    then show ?thesis using JObj by (simp add: getPropOpt_def)
  qed (simp_all add: getPropOpt_def)
  note nt = this
  show ?thesis
  proof (cases "iframeOrigin cfg \<noteq> ''*'' \<and> evOrigin ev \<noteq> iframeOrigin cfg")
    case True
    then show ?thesis by (simp add: handleMessage_def)
  next
    case o: False
    show ?thesis
    proof (cases "evSource ev \<noteq> contentWindow cfg")
      case True
      then show ?thesis by (simp add: handleMessage_def)
    next
      case False
      then have "\<not> isObjectWithType (evData ev)" using assms o by blast
      then have "\<not> truthy (getPropOpt (evData ev) ''type'')" by (rule nt)
      then show ?thesis by (simp add: handleMessage_def Let_def)
    qed
  qed
qed

theorem handleMessage_invalid_unchanged_witness:
  "iframeOrigin cfgBridge \<noteq> ''*''
   \<and> evOrigin ((fromIframe (toolCallMsg ''r1'' ''add_slide'' (JObj [])))\<lparr>evOrigin := ''https://evil.example''\<rparr>)
       \<noteq> iframeOrigin cfgBridge
   \<and> handleMessage cfgBridge
        ((fromIframe (toolCallMsg ''r1'' ''add_slide'' (JObj [])))\<lparr>evOrigin := ''https://evil.example''\<rparr>) init = init
   \<and> evSource ((fromIframe (toolCallMsg ''r1'' ''add_slide'' (JObj [])))\<lparr>evSource := Some 2\<rparr>)
       \<noteq> contentWindow cfgBridge
   \<and> handleMessage cfgBridge
        ((fromIframe (toolCallMsg ''r1'' ''add_slide'' (JObj [])))\<lparr>evSource := Some 2\<rparr>) init = init
   \<and> \<not> isObjectWithType (JObj [(''payload'', JNull)])
   \<and> handleMessage cfgBridge (fromIframe (JObj [(''payload'', JNull)])) init = init"
proof -
  have a: "iframeOrigin cfgBridge \<noteq> ''*''"
    by (simp add: iframeOrigin_def cfgBridge_def)
  have b: "evOrigin ((fromIframe (toolCallMsg ''r1'' ''add_slide'' (JObj [])))\<lparr>evOrigin := ''https://evil.example''\<rparr>)
       \<noteq> iframeOrigin cfgBridge"
    by (simp add: iframeOrigin_def cfgBridge_def)
  have c: "evSource ((fromIframe (toolCallMsg ''r1'' ''add_slide'' (JObj [])))\<lparr>evSource := Some 2\<rparr>)
       \<noteq> contentWindow cfgBridge"
    by (simp add: cfgBridge_def)
  have d: "\<not> isObjectWithType (evData (fromIframe (JObj [(''payload'', JNull)])))"
    by (simp add: fromIframe_def)
  show ?thesis
    using a b c d
      handleMessage_invalid_unchanged [of cfgBridge
        "(fromIframe (toolCallMsg ''r1'' ''add_slide'' (JObj [])))\<lparr>evOrigin := ''https://evil.example''\<rparr>" init]
      handleMessage_invalid_unchanged [of cfgBridge
        "(fromIframe (toolCallMsg ''r1'' ''add_slide'' (JObj [])))\<lparr>evSource := Some 2\<rparr>" init]
      handleMessage_invalid_unchanged [of cfgBridge "fromIframe (JObj [(''payload'', JNull)])" init]
    by (simp add: fromIframe_def)
qed

subsection \<open>C7: a tool name without a handler\<close>

text \<open>
  C7. In every reachable state, \<open>handlePptxToolCall\<close> with a tool name for which
  \<open>handlerMap\<close> has no handler returns a promise that is already rejected with the
  error \<open>Unknown PowerPoint tool: "name"\<close>, which for a string is the name itself
  between the quotes. The state after the call is the state before it with that one
  rejected promise added: the in-flight registry, the execution chain and its cursor
  are unchanged, no unit is submitted, no handler is invoked, and no reaction or job is
  left that could run the call again.
\<close>

theorem handlePptxToolCall_unknown:
  assumes "handlerMapGet toolName = None"
  shows "handlePptxToolCall toolName args (run cfg es) =
           (length (pstates (run cfg es)),
            (run cfg es)\<lparr>pstates := pstates (run cfg es) @ [Settled (Rejected (unknownToolError toolName))]\<rparr>)
         \<and> unknownToolError (JStr t) = JError (''Unknown PowerPoint tool: '' @ [CHR 0x22] @ t @ [CHR 0x22])"
proof -
  let ?s = "run cfg es"
  have "src r \<noteq> length (pstates ?s)" if "r \<in> set (reactions ?s)" for r
    using wfxD(5) [OF wf_run [unfolded wf_def], of r cfg es] that by simp
  then have f: "filter (\<lambda>r. src r \<noteq> length (pstates ?s)) (reactions ?s) = reactions ?s"
    "filter (\<lambda>r. src r = length (pstates ?s)) (reactions ?s) = []"
    by (simp_all add: filter_id_conv filter_empty_conv)
  show ?thesis
    using assms f
    by (simp add: handlePptxToolCall_def newPromise_def settlePromise_def pst_def unknownToolError_def)
qed

theorem handlePptxToolCall_unknown_witness:
  "handlerMapGet (JStr ''format_disk'') = None
   \<and> handlePptxToolCall (JStr ''format_disk'') (JObj []) (run cfgBridge [Call (JStr ''add_slide'') (JObj [])])
       = (5, (run cfgBridge [Call (JStr ''add_slide'') (JObj [])])
               \<lparr>pstates := pstates (run cfgBridge [Call (JStr ''add_slide'') (JObj [])])
                    @ [Settled (Rejected (JError (''Unknown PowerPoint tool: '' @ [CHR 0x22] @ ''format_disk'' @ [CHR 0x22])))]\<rparr>)
   \<and> submitted (run cfgBridge [Call (JStr ''add_slide'') (JObj [])]) = [(Invoke ''add_slide'' (JObj []), 2, 3)]"
proof -
  have a: "handlerMapGet (JStr ''format_disk'') = None"
    by (simp add: handlerNames_def)
  have l: "length (pstates (run cfgBridge [Call (JStr ''add_slide'') (JObj [])])) = 5"
    by code_simp
  have s: "submitted (run cfgBridge [Call (JStr ''add_slide'') (JObj [])]) = [(Invoke ''add_slide'' (JObj []), 2, 3)]"
    by code_simp
  have e: "unknownToolError (JStr ''format_disk'')
           = JError (''Unknown PowerPoint tool: '' @ [CHR 0x22] @ ''format_disk'' @ [CHR 0x22])"
    by (simp add: unknownToolError_def)
  show ?thesis
    using a s handlePptxToolCall_unknown [OF a, of "JObj []" cfgBridge "[Call (JStr ''add_slide'') (JObj [])]" "''x''"]
    unfolding l e by simp
qed

end
